theory Spec2Isabelle
  imports Main "HOL-Library.AList" "HOL-Library.Char_ord" "HOL-Library.List_Lexorder"
begin

section \<open>The annotation table\<close>

text \<open>
  The session keeps the annotations in a pandas DataFrame with the columns
  Folder, Base_Filename, Tag, Mask_Saved and Notes (line 20 of app_v2.py). A row is a
  record of five strings and the table is the list of its rows, in row order.
\<close>

record annotation =
  Folder :: string
  Base_Filename :: string
  Tag :: string
  Mask_Saved :: string
  Notes :: string

type_synonym dataframe = "annotation list"

text \<open>The columns of the empty DataFrame the session starts with, in order.\<close>

definition columns :: "string list" where
  "columns = [''Folder'', ''Base_Filename'', ''Tag'', ''Mask_Saved'', ''Notes'']"

text \<open>The subset of columns that \<open>drop_duplicates\<close> compares: Folder and Base_Filename.\<close>

definition subset_key :: "annotation \<Rightarrow> string \<times> string" where
  "subset_key r = (Folder r, Base_Filename r)"

text \<open>\<open>pd.concat([a, b], ignore_index=True)\<close>: the rows of a, then the rows of b.\<close>

definition pd_concat :: "dataframe \<Rightarrow> dataframe \<Rightarrow> dataframe" where
  "pd_concat a b = a @ b"

text \<open>
  \<open>drop_duplicates(subset=['Folder', 'Base_Filename'], keep='last')\<close>: a row is dropped
  when a later row has the same key; the rows that stay keep their order.
\<close>

fun drop_duplicates :: "dataframe \<Rightarrow> dataframe" where
  "drop_duplicates [] = []"
| "drop_duplicates (r # rs) =
     (if \<exists>r' \<in> set rs. subset_key r' = subset_key r
      then drop_duplicates rs
      else r # drop_duplicates rs)"

text \<open>
  Lines 72 to 80 of \<open>save_annotation_and_next\<close>: build the one-row frame, concatenate
  it to the table and drop the earlier duplicates of every key.
\<close>

definition new_data :: "string \<Rightarrow> string \<Rightarrow> string \<Rightarrow> string \<Rightarrow> string \<Rightarrow> dataframe" where
  "new_data folder base_name tag mask_saved_status notes =
     [\<lparr>Folder = folder, Base_Filename = base_name, Tag = tag,
       Mask_Saved = mask_saved_status, Notes = notes\<rparr>]"

definition upsert ::
  "string \<Rightarrow> string \<Rightarrow> string \<Rightarrow> string \<Rightarrow> string \<Rightarrow> dataframe \<Rightarrow> dataframe" where
  "upsert folder base_name tag mask_saved_status notes annotations =
     drop_duplicates
       (pd_concat annotations (new_data folder base_name tag mask_saved_status notes))"

text \<open>
  A sequence of upserts, each call given as (folder, base name, tag, mask status, notes),
  applied in order to a table.
\<close>

type_synonym upsert_call = "string \<times> string \<times> string \<times> string \<times> string"

fun call_key :: "upsert_call \<Rightarrow> string \<times> string" where
  "call_key (folder, base_name, tag, status, notes) = (folder, base_name)"

fun call_row :: "upsert_call \<Rightarrow> annotation" where
  "call_row (folder, base_name, tag, status, notes) =
     \<lparr>Folder = folder, Base_Filename = base_name, Tag = tag,
      Mask_Saved = status, Notes = notes\<rparr>"

fun upsert_call :: "upsert_call \<Rightarrow> dataframe \<Rightarrow> dataframe" where
  "upsert_call (folder, base_name, tag, status, notes) t =
     upsert folder base_name tag status notes t"

fun upserts :: "upsert_call list \<Rightarrow> dataframe \<Rightarrow> dataframe" where
  "upserts [] t = t"
| "upserts (c # cs) t = upserts cs (upsert_call c t)"

text \<open>The row of a key in a table: the first row with that key, if any.\<close>

definition row_of :: "string \<times> string \<Rightarrow> dataframe \<Rightarrow> annotation option" where
  "row_of k t = find (\<lambda>r. subset_key r = k) t"

text \<open>The last call of a sequence that names a key, if any.\<close>

definition last_call :: "string \<times> string \<Rightarrow> upsert_call list \<Rightarrow> upsert_call option" where
  "last_call k cs = find (\<lambda>c. call_key c = k) (rev cs)"

section \<open>Strings and paths\<close>

text \<open>
  Python's \<open>str\<close> is modelled by \<open>string\<close>. \<open>s.endswith(suf)\<close> and
  \<open>s.startswith(pre)\<close>:
\<close>

definition endswith :: "string \<Rightarrow> string \<Rightarrow> bool" where
  "endswith s suf = (length suf \<le> length s \<and> drop (length s - length suf) s = suf)"

definition startswith :: "string \<Rightarrow> string \<Rightarrow> bool" where
  "startswith s pre = (take (length pre) s = pre)"

text \<open>
  \<open>s.replace(old, new)\<close>: every occurrence of \<open>old\<close> is replaced, scanning from the
  left, occurrences not overlapping. (For an empty \<open>old\<close>, \<open>new\<close> is put before every
  character and at the end.)
\<close>

function str_replace :: "string \<Rightarrow> string \<Rightarrow> string \<Rightarrow> string" where
  "str_replace old new [] = (if old = [] then new else [])"
| "str_replace old new (c # cs) =
     (if old = [] then new @ c # str_replace old new cs
      else if startswith (c # cs) old
      then new @ str_replace old new (drop (length old) (c # cs))
      else c # str_replace old new cs)"
  by pat_completeness auto
termination
  by (relation "measure (\<lambda>(old, new, s). length s)") auto

text \<open>\<open>p.split('/')\<close>: the pieces between the separators; there is always one piece.\<close>

primrec split_sep :: "string \<Rightarrow> string list" where
  "split_sep [] = [[]]"
| "split_sep (c # cs) =
     (if c = CHR ''/'' then [] # split_sep cs
      else (case split_sep cs of [] \<Rightarrow> [[c]] | w # ws \<Rightarrow> (c # w) # ws))"

text \<open>\<open>os.path.basename(p)\<close>: what follows the last separator.\<close>

definition basename :: "string \<Rightarrow> string" where
  "basename p = rev (takeWhile (\<lambda>c. c \<noteq> CHR ''/'') (rev p))"

text \<open>\<open>os.path.join(a, b)\<close> of posixpath, for two arguments.\<close>

definition path_join :: "string \<Rightarrow> string \<Rightarrow> string" where
  "path_join a b =
     (if startswith b ''/'' then b
      else if a = [] \<or> endswith a ''/'' then a @ b
      else a @ ''/'' @ b)"

text \<open>
  The components of an absolute path after \<open>os.path.normpath\<close>: empty pieces and
  \<open>.\<close> are skipped, \<open>..\<close> removes the component before it (and is dropped at the
  root). \<open>new_comps\<close> is the list built so far.
\<close>

fun norm_comps :: "string list \<Rightarrow> string list \<Rightarrow> string list" where
  "norm_comps new_comps [] = new_comps"
| "norm_comps new_comps (piece # pieces) =
     (if piece = [] \<or> piece = ''.'' then norm_comps new_comps pieces
      else if piece \<noteq> ''..'' then norm_comps (new_comps @ [piece]) pieces
      else norm_comps (butlast new_comps) pieces)"

text \<open>
  The components of \<open>os.path.abspath(p)\<close>, where \<open>cwd\<close> is the absolute path that
  \<open>os.getcwd()\<close> returns. The operating system resolves a path along the same
  components (the model has no symbolic links).
\<close>

definition abs_comps :: "string \<Rightarrow> string \<Rightarrow> string list" where
  "abs_comps cwd p =
     norm_comps [] (split_sep (if startswith p ''/'' then p else path_join cwd p))"

fun common_prefix :: "string list \<Rightarrow> string list \<Rightarrow> string list" where
  "common_prefix (x # xs) (y # ys) = (if x = y then x # common_prefix xs ys else [])"
| "common_prefix xs ys = []"

datatype error =
  KeyError | ValueError | IndexError | NameError
  | FileExistsError | NotADirectoryError | IsADirectoryError | FileNotFoundError

text \<open>
  \<open>os.path.relpath(path, start)\<close> of posixpath: as many \<open>..\<close> as \<open>start\<close> has
  components beyond the common prefix, then the rest of \<open>path\<close>, joined; an empty
  \<open>path\<close> raises ValueError.
\<close>

definition relpath :: "string \<Rightarrow> string \<Rightarrow> string \<Rightarrow> error + string" where
  "relpath cwd path start =
     (if path = [] then Inl ValueError
      else
        let start_list = abs_comps cwd start;
            path_list = abs_comps cwd path;
            i = length (common_prefix start_list path_list);
            rel_list = replicate (length start_list - i) ''..'' @ drop i path_list
        in (case rel_list of
              [] \<Rightarrow> Inr ''.''
            | r # rs \<Rightarrow> Inr (foldl path_join r rs)))"

text \<open>Lines 27 and 28: the data and masks directories, under the working directory.\<close>

definition DATA_DIR :: "string \<Rightarrow> string" where
  "DATA_DIR cwd = path_join cwd ''_precomputed_data''"

definition MASKS_DIR :: "string \<Rightarrow> string" where
  "MASKS_DIR cwd = path_join cwd ''_masks''"

section \<open>The file system\<close>

text \<open>
  An image of mode RGBA: its width, its height, and the channel values of its pixels
  row by row, four to a pixel.
\<close>

record rgba_image =
  xsize :: nat
  ysize :: nat
  pixels :: "nat list"

text \<open>
  A file is a PNG image, given by the image it decodes to, or any other content. A
  directory lists its entries by name, in the order the operating system lists them.
  The file system is the directory at the root \<open>/\<close>.
\<close>

datatype content = Png rgba_image | Blob "nat list"

datatype node = File content | Dir "(string \<times> node) list"

fun resolve :: "node \<Rightarrow> string list \<Rightarrow> node option" where
  "resolve n [] = Some n"
| "resolve (File c) (d # ds) = None"
| "resolve (Dir es) (d # ds) =
     (case map_of es d of None \<Rightarrow> None | Some child \<Rightarrow> resolve child ds)"

definition file_at :: "node \<Rightarrow> string list \<Rightarrow> content option" where
  "file_at fs p = (case resolve fs p of Some (File c) \<Rightarrow> Some c | _ \<Rightarrow> None)"

definition dir_at :: "node \<Rightarrow> string list \<Rightarrow> bool" where
  "dir_at fs p = (case resolve fs p of Some (Dir es) \<Rightarrow> True | _ \<Rightarrow> False)"

text \<open>\<open>os.path.exists(p)\<close>.\<close>

definition path_exists :: "string \<Rightarrow> node \<Rightarrow> string \<Rightarrow> bool" where
  "path_exists cwd fs p = (resolve fs (abs_comps cwd p) \<noteq> None)"

text \<open>
  \<open>os.makedirs(p, exist_ok=True)\<close> along the components of \<open>p\<close>: missing directories
  are created (a new entry is listed last), existing ones are entered; a regular file in
  the way raises.
\<close>

fun makedirs :: "string list \<Rightarrow> node \<Rightarrow> error + node" where
  "makedirs [] (Dir es) = Inr (Dir es)"
| "makedirs [] (File c) = Inl FileExistsError"
| "makedirs (d # ds) (File c) = Inl NotADirectoryError"
| "makedirs (d # ds) (Dir es) =
     (case makedirs ds (case map_of es d of None \<Rightarrow> Dir [] | Some child \<Rightarrow> child) of
        Inl e \<Rightarrow> Inl e
      | Inr n \<Rightarrow> Inr (Dir (AList.update d n es)))"

text \<open>
  Opening the file at the components of a path for writing and writing \<open>c\<close>: the
  directory must exist; an existing file is replaced where it stands, a new one is
  listed last; a directory at the path raises.
\<close>

fun write_file :: "string list \<Rightarrow> content \<Rightarrow> node \<Rightarrow> error + node" where
  "write_file [] c (File old) = Inr (File c)"
| "write_file [] c (Dir es) = Inl IsADirectoryError"
| "write_file (d # ds) c (File old) = Inl NotADirectoryError"
| "write_file (d # ds) c (Dir es) =
     (case map_of es d of
        None \<Rightarrow> if ds = [] then Inr (Dir (es @ [(d, File c)])) else Inl FileNotFoundError
      | Some child \<Rightarrow>
          (case write_file ds c child of
             Inl e \<Rightarrow> Inl e
           | Inr n \<Rightarrow> Inr (Dir (AList.update d n es))))"

text \<open>Opening the file at a path for reading.\<close>

definition read_file :: "string list \<Rightarrow> node \<Rightarrow> error + content" where
  "read_file p fs =
     (case resolve fs p of
        None \<Rightarrow> Inl FileNotFoundError
      | Some (Dir es) \<Rightarrow> Inl IsADirectoryError
      | Some (File c) \<Rightarrow> Inr c)"

text \<open>
  \<open>os.walk(top)\<close>, top-down: a directory yields its path, the names of its
  subdirectories and the names of its other entries, then its subdirectories are walked
  in listing order, each under \<open>os.path.join\<close> of the path and its name. A path that is
  not a directory yields nothing.
\<close>

type_synonym walk_item = "string \<times> string list \<times> string list"

definition dirnames :: "(string \<times> node) list \<Rightarrow> string list" where
  "dirnames es = map fst (filter (\<lambda>(name, n). case n of Dir sub \<Rightarrow> True | File c \<Rightarrow> False) es)"

definition filenames :: "(string \<times> node) list \<Rightarrow> string list" where
  "filenames es = map fst (filter (\<lambda>(name, n). case n of Dir sub \<Rightarrow> False | File c \<Rightarrow> True) es)"

fun walk_dir :: "string \<Rightarrow> (string \<times> node) list \<Rightarrow> walk_item list"
  and walk_subdirs :: "string \<Rightarrow> (string \<times> node) list \<Rightarrow> walk_item list" where
  "walk_dir top_path es = (top_path, dirnames es, filenames es) # walk_subdirs top_path es"
| "walk_subdirs top_path [] = []"
| "walk_subdirs top_path ((name, File c) # es) = walk_subdirs top_path es"
| "walk_subdirs top_path ((name, Dir sub) # es) =
     walk_dir (path_join top_path name) sub @ walk_subdirs top_path es"

definition os_walk :: "string \<Rightarrow> node \<Rightarrow> string \<Rightarrow> walk_item list" where
  "os_walk cwd fs top_path =
     (case resolve fs (abs_comps cwd top_path) of
        Some (Dir es) \<Rightarrow> walk_dir top_path es
      | _ \<Rightarrow> [])"

section \<open>The session state\<close>

text \<open>
  Lines 15 to 24. \<open>file_tree\<close> is a Python dict from folder name to its path and base
  names: an association list in insertion order, a new key listed last, an existing
  key updated where it stands (\<open>AList.update\<close>).
\<close>

record folder_entry =
  path :: string
  base_names :: "string list"

type_synonym tree = "(string \<times> folder_entry) list"

record session_state =
  scan_complete :: bool
  file_tree :: tree
  annotations :: dataframe
  current_folder :: "string option"
  current_img_idx :: int

definition initial_state :: session_state where
  "initial_state =
     \<lparr>scan_complete = False, file_tree = [], annotations = [],
      current_folder = None, current_img_idx = 0\<rparr>"

text \<open>What a call shows to the user: the two errors of the scan, the success of line 92.\<close>

datatype message = Cannot_Find string | No_Valid_PNG_Sets | All_Folders_Completed

section \<open>The dataset scanner\<close>

text \<open>The body of the loop of lines 40 to 47, for one item of the walk.\<close>

fun scan_item :: "walk_item \<Rightarrow> tree \<Rightarrow> tree" where
  "scan_item (dirpath, dirs, files) tree =
     (let raw_files = filter (\<lambda>f. endswith f ''_raw.png'') files in
      if raw_files \<noteq> [] then
        let folder_name = basename dirpath;
            base_names = sort (map (str_replace ''_raw.png'' '''') raw_files)
        in AList.update folder_name \<lparr>path = dirpath, base_names = base_names\<rparr> tree
      else tree)"

text \<open>
  \<open>scan_png_directory\<close>, lines 33 to 55: the new session state and the error shown,
  if any.
\<close>

definition scan_png_directory ::
  "string \<Rightarrow> node \<Rightarrow> string \<Rightarrow> session_state \<Rightarrow> session_state \<times> message option" where
  "scan_png_directory cwd fs root_path st =
     (if \<not> path_exists cwd fs root_path then (st, Some (Cannot_Find root_path))
      else
        (case fold scan_item (os_walk cwd fs root_path) [] of
           [] \<Rightarrow> (st, Some No_Valid_PNG_Sets)
         | (first_folder, entry) # rest \<Rightarrow>
             (st\<lparr>file_tree := (first_folder, entry) # rest,
                 current_folder := Some first_folder,
                 current_img_idx := 0,
                 scan_complete := True\<rparr>, None)))"

section \<open>Saving an annotation\<close>

text \<open>
  The image data of the canvas is a numpy array: its shape, and its elements in row-major
  order (as many as the product of the shape).
\<close>

record ndarray =
  shape :: "nat list"
  elements :: "nat list"

text \<open>\<open>mask_data.astype("uint8")\<close>: the same shape, each element modulo 256.\<close>

definition astype_uint8 :: "ndarray \<Rightarrow> ndarray" where
  "astype_uint8 mask_data = mask_data\<lparr>elements := map (\<lambda>v. v mod 256) (elements mask_data)\<rparr>"

text \<open>
  \<open>Image.fromarray(obj, mode="RGBA")\<close> on an array of bytes. More than four dimensions
  raise ValueError (too many dimensions). The size of the image is
  \<open>(1 if ndim == 1 else shape[1], shape[0])\<close>, so an array of no dimension raises
  IndexError. The image is then read from the buffer of the array, four bytes to a
  pixel: a buffer shorter than that raises ValueError (buffer is not large enough), as
  for an array of three channels.
\<close>

definition fromarray :: "ndarray \<Rightarrow> error + rgba_image" where
  "fromarray obj =
     (let ndim = length (shape obj) in
      if ndim > 4 then Inl ValueError
      else
        (case shape obj of
           [] \<Rightarrow> Inl IndexError
         | height # rest \<Rightarrow>
             let width = (case rest of [] \<Rightarrow> 1 | w # others \<Rightarrow> w) in
             if length (elements obj) < width * height * 4 then Inl ValueError
             else Inr \<lparr>xsize = width, ysize = height,
                       pixels = take (width * height * 4) (elements obj)\<rparr>))"

text \<open>
  \<open>mask_img.save(mask_path)\<close>: the file at the path is opened for writing, with the
  errors of that, and the image is encoded as PNG; the encoder refuses an image of no
  width or no height, and no image is written then.
\<close>

definition image_save :: "string list \<Rightarrow> rgba_image \<Rightarrow> node \<Rightarrow> error + node" where
  "image_save p mask_img fs =
     (case write_file p (Png mask_img) fs of
        Inl e \<Rightarrow> Inl e
      | Inr fs' \<Rightarrow> if xsize mask_img = 0 \<or> ysize mask_img = 0 then Inl ValueError else Inr fs')"

definition mask_path :: "string \<Rightarrow> string \<Rightarrow> string \<Rightarrow> string" where
  "mask_path cwd folder base_name =
     path_join (path_join (MASKS_DIR cwd) folder) (base_name @ ''_mask.png'')"

text \<open>
  Lines 59 to 70 of \<open>save_annotation_and_next\<close>: the file system afterwards, and the
  mask status or the error raised. An error of \<open>makedirs\<close> leaves the file system as it
  was; an error of \<open>Image.fromarray\<close> or of \<open>save\<close>, which come after it, leaves the
  directories \<open>makedirs\<close> made and writes no image.
\<close>

definition persist_mask ::
  "string \<Rightarrow> string \<Rightarrow> string \<Rightarrow> ndarray option \<Rightarrow> node \<Rightarrow> node \<times> (error + string)" where
  "persist_mask cwd folder base_name mask_data fs =
     (case mask_data of
        None \<Rightarrow> (fs, Inr ''No'')
      | Some buf \<Rightarrow>
          let folder_mask_dir = path_join (MASKS_DIR cwd) folder in
          (case makedirs (abs_comps cwd folder_mask_dir) fs of
             Inl e \<Rightarrow> (fs, Inl e)
           | Inr fs1 \<Rightarrow>
               let mask_path = path_join folder_mask_dir (base_name @ ''_mask.png'') in
               (case fromarray (astype_uint8 buf) of
                  Inl e \<Rightarrow> (fs1, Inl e)
                | Inr mask_img \<Rightarrow>
                    (case image_save (abs_comps cwd mask_path) mask_img fs1 of
                       Inl e \<Rightarrow> (fs1, Inl e)
                     | Inr fs2 \<Rightarrow> (fs2, Inr ''Yes'')))))"

text \<open>\<open>xs.index(x)\<close>: the first position of \<open>x\<close>; a missing \<open>x\<close> raises ValueError.\<close>

fun index_of :: "'a list \<Rightarrow> 'a \<Rightarrow> nat option" where
  "index_of [] x = None"
| "index_of (y # ys) x = (if y = x then Some 0 else map_option Suc (index_of ys x))"

text \<open>
  How a call ends: \<open>st.rerun()\<close>, after the message shown if any, or an exception.
  Python keeps the assignments made before an exception, so a call returns the session
  state and the file system in both cases.
\<close>

datatype signal = Rerun "message option" | Raised error

text \<open>Lines 82 to 93: the advance to the next sample or folder.\<close>

definition advance :: "string \<Rightarrow> session_state \<Rightarrow> session_state \<times> signal" where
  "advance folder st =
     (case map_of (file_tree st) folder of
        None \<Rightarrow> (st, Raised KeyError)
      | Some entry \<Rightarrow>
          if current_img_idx st < int (length (base_names entry)) - 1
          then (st\<lparr>current_img_idx := current_img_idx st + 1\<rparr>, Rerun None)
          else
            let folders = map fst (file_tree st) in
            (case index_of folders folder of
               None \<Rightarrow> (st, Raised ValueError)
             | Some current_folder_idx \<Rightarrow>
                 if int current_folder_idx < int (length folders) - 1
                 then (st\<lparr>current_folder := Some (folders ! (current_folder_idx + 1)),
                          current_img_idx := 0\<rparr>, Rerun None)
                 else (st, Rerun (Some All_Folders_Completed))))"

text \<open>\<open>save_annotation_and_next\<close>, lines 57 to 94.\<close>

definition save_annotation_and_next ::
  "string \<Rightarrow> string \<Rightarrow> string \<Rightarrow> string \<Rightarrow> string \<Rightarrow> ndarray option
     \<Rightarrow> session_state \<times> node \<Rightarrow> session_state \<times> node \<times> signal" where
  "save_annotation_and_next cwd folder base_name tag notes mask_data s =
     (case s of (st, fs) \<Rightarrow>
        (case persist_mask cwd folder base_name mask_data fs of
           (fs', Inl e) \<Rightarrow> (st, fs', Raised e)
         | (fs', Inr mask_saved_status) \<Rightarrow>
             let st1 = st\<lparr>annotations :=
                           upsert folder base_name tag mask_saved_status notes (annotations st)\<rparr>
             in (case advance folder st1 of (st2, sig) \<Rightarrow> (st2, fs', sig))))"

section \<open>The export\<close>

text \<open>
  pandas hands each value of the table to \<open>worksheet.write\<close> of xlsxwriter, without a
  format, and the writer is created with the options of xlsxwriter at their defaults
  (\<open>strings_to_formulas\<close> and \<open>strings_to_urls\<close> on, \<open>strings_to_numbers\<close> off). For a
  string, \<open>write\<close> chooses by its text: the empty string is a blank, and a blank without
  format writes no cell; a string that starts with \<open>=\<close>, or that starts with \<open>{=\<close> and ends
  with \<open>}\<close>, goes to \<open>write_formula\<close>; a string that contains a colon and starts with
  \<open>ftp://\<close>, \<open>ftps://\<close>, \<open>http://\<close>, \<open>https://\<close>, \<open>mailto:\<close>, \<open>internal:\<close> or \<open>external:\<close>
  goes to \<open>write_url\<close>; every other string goes to \<open>write_string\<close>. A cell is what one
  of these makes of the string handed to it.
\<close>

datatype cell = No_Cell | Formula_Cell string | Url_Cell string | String_Cell string

definition is_url :: "string \<Rightarrow> bool" where
  "is_url token =
     (startswith token ''ftp://'' \<or> startswith token ''ftps://''
      \<or> startswith token ''http://'' \<or> startswith token ''https://''
      \<or> startswith token ''mailto:''
      \<or> startswith token ''internal:'' \<or> startswith token ''external:'')"

definition write_token :: "string \<Rightarrow> cell" where
  "write_token token =
     (if token = [] then No_Cell
      else if startswith token ''='' then Formula_Cell token
      else if startswith token ''{='' \<and> endswith token ''}'' then Formula_Cell token
      else if CHR '':'' \<in> set token \<and> is_url token then Url_Cell token
      else String_Cell token)"

text \<open>
  The archive is the list of its members, each a name and what is stored under it. The
  spreadsheet written by \<open>to_excel(writer, index=False, sheet_name='Annotations')\<close> is
  its sheet: the header row of the column names, then per table row the cells written
  for its values, column by column.
\<close>

record sheet =
  sheet_name :: string
  header :: "string list"
  cells :: "cell list list"

datatype member = Spreadsheet sheet | Stored content

type_synonym archive = "(string \<times> member) list"

definition to_excel :: "dataframe \<Rightarrow> sheet" where
  "to_excel df =
     \<lparr>sheet_name = ''Annotations'', header = columns,
      cells = map (\<lambda>r. map write_token
                           [Folder r, Base_Filename r, Tag r, Mask_Saved r, Notes r]) df\<rparr>"

text \<open>\<open>zip_file.write(file_path, arcname)\<close>: the file is read and stored under \<open>arcname\<close>.\<close>

definition zip_write :: "string \<Rightarrow> node \<Rightarrow> string \<Rightarrow> string \<Rightarrow> archive \<Rightarrow> error + archive" where
  "zip_write cwd fs file_path arcname zip_file =
     (case read_file (abs_comps cwd file_path) fs of
        Inl e \<Rightarrow> Inl e
      | Inr c \<Rightarrow> Inr (zip_file @ [(arcname, Stored c)]))"

text \<open>The inner loop of lines 109 to 112, over the files of one directory of the walk.\<close>

fun add_files :: "string \<Rightarrow> node \<Rightarrow> string \<Rightarrow> string list \<Rightarrow> archive \<Rightarrow> error + archive" where
  "add_files cwd fs root [] zip_file = Inr zip_file"
| "add_files cwd fs root (file # files) zip_file =
     (let file_path = path_join root file in
      case relpath cwd file_path cwd of
        Inl e \<Rightarrow> Inl e
      | Inr arcname \<Rightarrow>
          (case zip_write cwd fs file_path arcname zip_file of
             Inl e \<Rightarrow> Inl e
           | Inr zip_file' \<Rightarrow> add_files cwd fs root files zip_file'))"

text \<open>The outer loop of line 108, over the items of the walk.\<close>

fun add_masks :: "string \<Rightarrow> node \<Rightarrow> walk_item list \<Rightarrow> archive \<Rightarrow> error + archive" where
  "add_masks cwd fs [] zip_file = Inr zip_file"
| "add_masks cwd fs ((root, dirs, files) # items) zip_file =
     (case add_files cwd fs root files zip_file of
        Inl e \<Rightarrow> Inl e
      | Inr zip_file' \<Rightarrow> add_masks cwd fs items zip_file')"

text \<open>
  \<open>create_export_zip\<close>, lines 96 to 114: it reads the annotations of the session and
  the file system, and assigns to neither.
\<close>

definition create_export_zip :: "string \<Rightarrow> session_state \<Rightarrow> node \<Rightarrow> error + archive" where
  "create_export_zip cwd st fs =
     (let zip_file = [(''hsd_annotations.xlsx'', Spreadsheet (to_excel (annotations st)))] in
      if path_exists cwd fs (MASKS_DIR cwd)
      then add_masks cwd fs (os_walk cwd fs (MASKS_DIR cwd)) zip_file
      else Inr zip_file)"

section \<open>The page\<close>

text \<open>
  \<open>xs[i]\<close> of a Python list: a negative index counts from the end, an index out of
  range raises IndexError.
\<close>

definition py_get :: "'a list \<Rightarrow> int \<Rightarrow> error + 'a" where
  "py_get xs i =
     (if 0 \<le> i \<and> i < int (length xs) then Inr (xs ! nat i)
      else if i < 0 \<and> - int (length xs) \<le> i then Inr (xs ! nat (int (length xs) + i))
      else Inl IndexError)"

text \<open>
  Lines 161 to 166: the folder and the base name of the sample the page shows, once the
  scan is complete.
\<close>

definition current_sample :: "session_state \<Rightarrow> error + (string \<times> string)" where
  "current_sample st =
     (case current_folder st of
        None \<Rightarrow> Inl KeyError
      | Some folder \<Rightarrow>
          (case map_of (file_tree st) folder of
             None \<Rightarrow> Inl KeyError
           | Some entry \<Rightarrow>
               (case py_get (base_names entry) (current_img_idx st) of
                  Inl e \<Rightarrow> Inl e
                | Inr current_base \<Rightarrow> Inr (folder, current_base))))"

text \<open>
  Lines 222 to 239: the rows of the table that match the sample, and the tag and notes
  the form is filled with.
\<close>

definition match :: "string \<Rightarrow> string \<Rightarrow> dataframe \<Rightarrow> dataframe" where
  "match folder current_base table =
     filter (\<lambda>r. Folder r = folder \<and> Base_Filename r = current_base) table"

definition tag_options :: "string list" where
  "tag_options = [''Benign'', ''Cancerous'', ''Anomaly'', ''Background'', ''Discard'', ''Keep'']"

record prefill =
  existing_tag :: string
  existing_notes :: string
  previously_tagged :: bool

definition lookup_prefill :: "string \<Rightarrow> string \<Rightarrow> dataframe \<Rightarrow> prefill" where
  "lookup_prefill folder current_base table =
     (case match folder current_base table of
        [] \<Rightarrow> \<lparr>existing_tag = '''', existing_notes = '''', previously_tagged = False\<rparr>
      | r # rs \<Rightarrow> \<lparr>existing_tag = Tag r, existing_notes = Notes r, previously_tagged = True\<rparr>)"

text \<open>The option the selectbox starts on, and the text the notes area starts with.\<close>

definition classification_index :: "prefill \<Rightarrow> nat" where
  "classification_index p =
     (if existing_tag p \<in> set tag_options
      then (case index_of tag_options (existing_tag p) of Some i \<Rightarrow> i | None \<Rightarrow> 0)
      else 0)"

definition notes_value :: "prefill \<Rightarrow> string" where
  "notes_value p = existing_notes p"

text \<open>
  Lines 136 to 139: the folder selectbox gave \<open>selected_folder\<close>, one of the keys of the
  tree.
\<close>

definition select_folder :: "string \<Rightarrow> session_state \<Rightarrow> session_state" where
  "select_folder selected_folder st =
     (if Some selected_folder \<noteq> current_folder st
      then st\<lparr>current_folder := Some selected_folder, current_img_idx := 0\<rparr>
      else st)"

text \<open>Lines 247 to 249: the Previous button, which is disabled at index 0.\<close>

definition previous :: "session_state \<Rightarrow> session_state" where
  "previous st = st\<lparr>current_img_idx := current_img_idx st - 1\<rparr>"

text \<open>
  Lines 252 to 255: the Save and Next button on the page of the current sample, with
  the tag and notes of the form. \<open>canvas_result\<close> is bound when the background layer
  was loaded (lines 189 to 215) and then holds the image data of the canvas, which may
  be None; when loading failed the exception was caught at line 216, the name is
  unbound and line 254 raises NameError.
\<close>

definition click_save_next ::
  "string \<Rightarrow> string \<Rightarrow> string \<Rightarrow> ndarray option option \<Rightarrow> session_state \<times> node
     \<Rightarrow> session_state \<times> node \<times> signal" where
  "click_save_next cwd selected_tag notes_input canvas_result s =
     (case current_sample (fst s) of
        Inl e \<Rightarrow> (fst s, snd s, Raised e)
      | Inr (folder, current_base) \<Rightarrow>
          (case canvas_result of
             None \<Rightarrow> (fst s, snd s, Raised NameError)
           | Some mask_data \<Rightarrow>
               save_annotation_and_next cwd folder current_base selected_tag notes_input
                 mask_data s))"

section \<open>What the claims name\<close>

text \<open>
  The notions the statements below use beside the functions of the program.
\<close>

subsection \<open>Of the scanner\<close>

text \<open>A file name with a suffix stripped: the name without its last characters.\<close>

definition strip_suffix :: "string \<Rightarrow> string \<Rightarrow> string" where
  "strip_suffix s suf = take (length s - length suf) s"

text \<open>The names of all regular files anywhere under a directory.\<close>

fun files_under :: "(string \<times> node) list \<Rightarrow> string list" where
  "files_under [] = []"
| "files_under ((name, File c) # es) = name # files_under es"
| "files_under ((name, Dir sub) # es) = files_under sub @ files_under es"

text \<open>The files ending in \<open>_raw.png\<close> anywhere under a root path.\<close>

definition raw_files_under :: "string \<Rightarrow> node \<Rightarrow> string \<Rightarrow> string list" where
  "raw_files_under cwd fs root_path =
     (case resolve fs (abs_comps cwd root_path) of
        Some (Dir es) \<Rightarrow> filter (\<lambda>f. endswith f ''_raw.png'') (files_under es)
      | _ \<Rightarrow> [])"

text \<open>
  The qualifying folders of a walk: the directories that hold at least one file ending in
  \<open>_raw.png\<close>. Each is registered under the entry the loop builds for it.
\<close>

definition qualifying :: "walk_item list \<Rightarrow> walk_item list" where
  "qualifying items = filter (\<lambda>(dirpath, dirs, files). \<exists>f \<in> set files. endswith f ''_raw.png'') items"

fun entry_of :: "walk_item \<Rightarrow> string \<times> folder_entry" where
  "entry_of (dirpath, dirs, files) =
     (basename dirpath,
      \<lparr>path = dirpath,
       base_names = sort (map (str_replace ''_raw.png'' '''')
                           (filter (\<lambda>f. endswith f ''_raw.png'') files))\<rparr>)"

text \<open>All the file names a walk lists.\<close>

definition item_files :: "walk_item list \<Rightarrow> string set" where
  "item_files items = (\<Union>(dirpath, dirs, files) \<in> set items. set files)"

subsection \<open>Of the runs of the page\<close>

text \<open>
  What the user does on the page, with the file system as it is at that moment: the
  Load Dataset button, a choice in the folder selectbox, the Previous button, the Save
  and Next button with the form and canvas data, and the download of the export.
\<close>

datatype event =
  Load_Dataset node
  | Select_Folder string
  | Previous
  | Save_Next string string "ndarray option option" node
  | Export node

text \<open>
  The widgets of lines 127 to 155 and 245 to 255 exist once the scan is complete; the
  selectbox offers the keys of the tree, Previous is disabled at index 0, the download
  is offered when the table is not empty.
\<close>

fun enabled :: "event \<Rightarrow> session_state \<Rightarrow> bool" where
  "enabled (Load_Dataset fs) st = True"
| "enabled (Select_Folder selected_folder) st =
     (scan_complete st \<and> selected_folder \<in> set (map fst (file_tree st)))"
| "enabled Previous st = (scan_complete st \<and> current_img_idx st \<noteq> 0)"
| "enabled (Save_Next selected_tag notes_input canvas_result fs) st = scan_complete st"
| "enabled (Export fs) st = (scan_complete st \<and> annotations st \<noteq> [])"

text \<open>The session state after the run of the page that handles the event.\<close>

fun step :: "string \<Rightarrow> event \<Rightarrow> session_state \<Rightarrow> session_state" where
  "step cwd (Load_Dataset fs) st = fst (scan_png_directory cwd fs (DATA_DIR cwd) st)"
| "step cwd (Select_Folder selected_folder) st = select_folder selected_folder st"
| "step cwd Previous st = previous st"
| "step cwd (Save_Next selected_tag notes_input canvas_result fs) st =
     fst (click_save_next cwd selected_tag notes_input canvas_result (st, fs))"
| "step cwd (Export fs) st = st"

inductive reachable :: "string \<Rightarrow> session_state \<Rightarrow> bool" for cwd :: string where
  initial: "reachable cwd initial_state"
| after: "reachable cwd st \<Longrightarrow> enabled e st \<Longrightarrow> reachable cwd (step cwd e st)"

text \<open>
  The invariant of the session: the keys of the tree are distinct (it is a dict), every
  folder of the tree has a base name, and once the scan is complete the current folder
  is a key of the tree and the index is a position of its base names.
\<close>

definition in_bounds :: "session_state \<Rightarrow> bool" where
  "in_bounds st =
     (\<exists>folder entry. current_folder st = Some folder
        \<and> map_of (file_tree st) folder = Some entry
        \<and> 0 \<le> current_img_idx st
        \<and> current_img_idx st < int (length (base_names entry)))"

definition tree_ok :: "tree \<Rightarrow> bool" where
  "tree_ok t = (distinct (map fst t) \<and> (\<forall>(folder, entry) \<in> set t. base_names entry \<noteq> []))"

definition session_inv :: "session_state \<Rightarrow> bool" where
  "session_inv st = (tree_ok (file_tree st) \<and> (scan_complete st \<longrightarrow> in_bounds st))"

subsection \<open>Of saving\<close>

text \<open>
  A name a directory can list: not empty, without a separator, and neither \<open>.\<close> nor
  \<open>..\<close>.
\<close>

definition valid_name :: "string \<Rightarrow> bool" where
  "valid_name n = (n \<noteq> [] \<and> CHR ''/'' \<notin> set n \<and> n \<noteq> ''.'' \<and> n \<noteq> ''..'')"

text \<open>
  The file at the components \<open>p\<close> can be created or replaced once its directory is
  made: no regular file stands at a proper prefix of \<open>p\<close>, and no directory at \<open>p\<close>.
\<close>

definition can_save :: "string list \<Rightarrow> node \<Rightarrow> bool" where
  "can_save p fs = ((\<forall>n < length p. file_at fs (take n p) = None) \<and> \<not> dir_at fs p)"

text \<open>
  The mask of a sample can be saved: the working directory is an absolute path, the
  folder is a name, the base name has no separator, and the mask file can be created
  or replaced on the file system.
\<close>

definition io_ok :: "string \<Rightarrow> string \<Rightarrow> string \<Rightarrow> node \<Rightarrow> bool" where
  "io_ok cwd folder base_name fs =
     (startswith cwd ''/'' \<and> valid_name folder \<and> CHR ''/'' \<notin> set base_name
      \<and> can_save (abs_comps cwd (mask_path cwd folder base_name)) fs)"

text \<open>
  The image data an RGBA canvas returns: an array of height by width by four channels
  with at least one pixel. \<open>mask_image\<close> is the image such an array holds.
\<close>

definition rgba_array :: "ndarray \<Rightarrow> bool" where
  "rgba_array a =
     (length (shape a) = 3 \<and> 0 < shape a ! 0 \<and> 0 < shape a ! 1 \<and> shape a ! 2 = 4
      \<and> length (elements a) = shape a ! 0 * shape a ! 1 * 4)"

definition mask_image :: "ndarray \<Rightarrow> rgba_image" where
  "mask_image a =
     \<lparr>xsize = shape a ! 1, ysize = shape a ! 0, pixels = map (\<lambda>v. v mod 256) (elements a)\<rparr>"

text \<open>The mask data of a call: None, or the image data of an RGBA canvas.\<close>

definition mask_ok :: "ndarray option \<Rightarrow> bool" where
  "mask_ok mask_data = (case mask_data of None \<Rightarrow> True | Some a \<Rightarrow> rgba_array a)"

text \<open>
  Calls of \<open>save_annotation_and_next\<close> one after the other for the same sample, each
  with its tag, notes and mask data; the signals of the calls are collected.
\<close>

fun save_repeatedly ::
  "string \<Rightarrow> string \<Rightarrow> string \<Rightarrow> (string \<times> string \<times> ndarray option) list
     \<Rightarrow> session_state \<times> node \<Rightarrow> session_state \<times> node \<times> signal list" where
  "save_repeatedly cwd folder base_name [] s = (fst s, snd s, [])"
| "save_repeatedly cwd folder base_name ((tag, notes, mask_data) # calls) s =
     (case save_annotation_and_next cwd folder base_name tag notes mask_data s of
        (st', fs', sig) \<Rightarrow>
          (case save_repeatedly cwd folder base_name calls (st', fs') of
             (st'', fs'', sigs) \<Rightarrow> (st'', fs'', sig # sigs)))"

subsection \<open>Of the export\<close>



text \<open>
  A directory as the operating system keeps it: the names of its entries are valid and
  distinct, and so in every directory below it.
\<close>

fun wf_entries :: "(string \<times> node) list \<Rightarrow> bool" where
  "wf_entries [] = True"
| "wf_entries ((name, File c) # es) =
     (valid_name name \<and> name \<notin> fst ` set es \<and> wf_entries es)"
| "wf_entries ((name, Dir sub) # es) =
     (valid_name name \<and> name \<notin> fst ` set es \<and> wf_entries sub \<and> wf_entries es)"

text \<open>The regular files a directory lists itself, with their contents.\<close>

fun own_files :: "(string \<times> node) list \<Rightarrow> (string \<times> content) list" where
  "own_files [] = []"
| "own_files ((name, File c) # es) = (name, c) # own_files es"
| "own_files ((name, Dir sub) # es) = own_files es"

text \<open>
  All regular files under a directory, each with its path relative to the directory
  (as components) and its content: the directory's own files, then those of its
  subdirectories in listing order.
\<close>

fun files_in :: "(string \<times> node) list \<Rightarrow> (string list \<times> content) list"
  and files_in_subdirs :: "(string \<times> node) list \<Rightarrow> (string list \<times> content) list" where
  "files_in es = map (\<lambda>(name, c). ([name], c)) (own_files es) @ files_in_subdirs es"
| "files_in_subdirs [] = []"
| "files_in_subdirs ((name, File c) # es) = files_in_subdirs es"
| "files_in_subdirs ((name, Dir sub) # es) =
     map (\<lambda>(q, c). (name # q, c)) (files_in sub) @ files_in_subdirs es"

text \<open>Names joined by the separator: the text of a relative path.\<close>

fun join_names :: "string list \<Rightarrow> string" where
  "join_names [] = []"
| "join_names (n # ns) = n @ concat (map (\<lambda>m. CHR ''/'' # m) ns)"

text \<open>The files under the masks root, and the masks root being well formed.\<close>

definition mask_files :: "string \<Rightarrow> node \<Rightarrow> (string list \<times> content) list" where
  "mask_files cwd fs =
     (case resolve fs (abs_comps cwd (MASKS_DIR cwd)) of
        Some (Dir es) \<Rightarrow> files_in es
      | _ \<Rightarrow> [])"

definition masks_wf :: "string \<Rightarrow> node \<Rightarrow> bool" where
  "masks_wf cwd fs =
     (case resolve fs (abs_comps cwd (MASKS_DIR cwd)) of
        Some (Dir es) \<Rightarrow> wf_entries es
      | _ \<Rightarrow> True)"

section \<open>Examples\<close>

text \<open>File systems for the examples: a working directory \<open>/app\<close> with its data folder.\<close>

definition no_raw_fs :: node where
  "no_raw_fs = Dir [(''app'', Dir [(''_precomputed_data'',
      Dir [(''A'', Dir [(''s1_norm.png'', File (Blob []))])])])]"

definition two_folder_fs :: node where
  "two_folder_fs = Dir [(''app'', Dir [(''_precomputed_data'',
      Dir [(''A'', Dir [(''s2_raw.png'', File (Blob [])), (''s1_raw.png'', File (Blob [])),
                        (''s1_norm.png'', File (Blob []))]),
           (''B'', Dir [(''t_raw.png'', File (Blob []))])])])]"

definition twin_leaf_fs :: node where
  "twin_leaf_fs = Dir [(''app'', Dir [(''_precomputed_data'',
      Dir [(''a'', Dir [(''x'', Dir [(''s_raw.png'', File (Blob []))])]),
           (''b'', Dir [(''x'', Dir [(''t_raw.png'', File (Blob []))])])])])]"

text \<open>The session after the scan of the two-folder example.\<close>

definition two_folder_state :: session_state where
  "two_folder_state =
     \<lparr>scan_complete = True,
      file_tree = [(''A'', \<lparr>path = ''/app/_precomputed_data/A'', base_names = [''s1'', ''s2'']\<rparr>),
                   (''B'', \<lparr>path = ''/app/_precomputed_data/B'', base_names = [''t'']\<rparr>)],
      annotations = [], current_folder = Some ''A'', current_img_idx = 0\<rparr>"

text \<open>
  File systems and a session state for the examples of the export: a mask saved for the
  sample \<open>s1\<close> of folder \<open>A\<close>, with and without the data folder beside it.
\<close>

definition red_pixel :: ndarray where
  "red_pixel = \<lparr>shape = [1, 1, 4], elements = [255, 0, 0, 77]\<rparr>"

definition red_pixel_image :: rgba_image where
  "red_pixel_image = \<lparr>xsize = 1, ysize = 1, pixels = [255, 0, 0, 77]\<rparr>"

definition masks_fs :: node where
  "masks_fs = Dir [(''app'', Dir [
      (''_precomputed_data'', Dir [(''A'', Dir [(''s1_raw.png'', File (Blob []))])]),
      (''_masks'', Dir [(''A'', Dir [(''s1_mask.png'', File (Png red_pixel_image))])])])]"

definition masks_only_fs :: node where
  "masks_only_fs = Dir [(''app'', Dir [
      (''_masks'', Dir [(''A'', Dir [(''s1_mask.png'', File (Png red_pixel_image))])])])]"

definition annotated_state :: session_state where
  "annotated_state =
     two_folder_state\<lparr>annotations :=
       [\<lparr>Folder = ''A'', Base_Filename = ''s1'', Tag = ''Keep'', Mask_Saved = ''Yes'',
         Notes = ''ok''\<rparr>], current_img_idx := 1\<rparr>"


section \<open>Properties of the annotation table\<close>

lemma subset_key_call_row [simp]: "subset_key (call_row c) = call_key c"
  by (cases c) (simp add: subset_key_def)

lemma upsert_call_eq: "upsert_call c t = drop_duplicates (t @ [call_row c])"
  by (cases c) (simp add: upsert_def pd_concat_def new_data_def)

lemma set_drop_duplicates_subset: "set (drop_duplicates t) \<subseteq> set t"
  by (induction t) auto

lemma keys_drop_duplicates:
  "subset_key ` set (drop_duplicates t) = subset_key ` set t"
proof (induction t)
  case Nil
  then show ?case by simp
next
  case (Cons r rs)
  show ?case
  proof (cases "\<exists>r' \<in> set rs. subset_key r' = subset_key r")
    case True
    then obtain r' where "r' \<in> set rs" and "subset_key r' = subset_key r" by blast
    then have "subset_key r \<in> subset_key ` set rs" by (metis imageI)
    with True Cons show ?thesis by (simp add: insert_absorb)
  next
    case False
    with Cons show ?thesis by simp
  qed
qed

lemma distinct_drop_duplicates: "distinct (map subset_key (drop_duplicates t))"
proof (induction t)
  case Nil
  then show ?case by simp
next
  case (Cons r rs)
  show ?case
  proof (cases "\<exists>r' \<in> set rs. subset_key r' = subset_key r")
    case True
    with Cons show ?thesis by simp
  next
    case False
    then have "subset_key r \<notin> subset_key ` set rs" by (auto simp: image_iff)
    then have "subset_key r \<notin> subset_key ` set (drop_duplicates rs)"
      by (simp add: keys_drop_duplicates)
    with Cons False show ?thesis by simp
  qed
qed

lemma drop_duplicates_id:
  "distinct (map subset_key t) \<Longrightarrow> drop_duplicates t = t"
  by (induction t) (auto simp: image_iff)

lemma drop_duplicates_append_last:
  "drop_duplicates (t @ [r]) =
     drop_duplicates (filter (\<lambda>x. subset_key x \<noteq> subset_key r) t) @ [r]"
proof (induction t)
  case Nil
  then show ?case by simp
next
  case (Cons x xs)
  show ?case
  proof (cases "subset_key x = subset_key r")
    case True
    with Cons show ?thesis by simp
  next
    case False
    then have "(\<exists>r' \<in> set (xs @ [r]). subset_key r' = subset_key x) =
        (\<exists>r' \<in> set (filter (\<lambda>y. subset_key y \<noteq> subset_key r) xs).
            subset_key r' = subset_key x)"
      by auto
    with Cons False show ?thesis by simp
  qed
qed

lemma upserts_append: "upserts (cs @ ds) t = upserts ds (upserts cs t)"
  by (induction cs arbitrary: t) simp_all

lemma distinct_upsert_call: "distinct (map subset_key (upsert_call c t))"
  by (simp add: upsert_call_eq distinct_drop_duplicates)

lemma distinct_upserts:
  "distinct (map subset_key t) \<Longrightarrow> distinct (map subset_key (upserts cs t))"
  by (induction cs arbitrary: t) (simp_all add: distinct_upsert_call)

lemma keys_upsert_call:
  "subset_key ` set (upsert_call c t) = insert (call_key c) (subset_key ` set t)"
  by (simp add: upsert_call_eq keys_drop_duplicates)

lemma keys_upserts:
  "subset_key ` set (upserts cs t) = call_key ` set cs \<union> subset_key ` set t"
  by (induction cs arbitrary: t) (auto simp: keys_upsert_call)

lemma find_append:
  "find P (xs @ ys) = (case find P xs of None \<Rightarrow> find P ys | Some x \<Rightarrow> Some x)"
  by (induction xs) simp_all

lemma find_filter_other:
  "find (\<lambda>r. subset_key r = k) (filter (\<lambda>x. subset_key x \<noteq> k') t) =
     (if k = k' then None else find (\<lambda>r. subset_key r = k) t)"
  by (induction t) (auto simp: find_None_iff)

lemma row_of_upsert_call:
  assumes "distinct (map subset_key t)"
  shows "row_of k (upsert_call c t) =
     (if k = call_key c then Some (call_row c) else row_of k t)"
proof -
  have d: "distinct (map subset_key (filter (\<lambda>x. subset_key x \<noteq> call_key c) t))"
    using assms by (simp add: distinct_map_filter)
  have "upsert_call c t = filter (\<lambda>x. subset_key x \<noteq> call_key c) t @ [call_row c]"
    by (simp add: upsert_call_eq drop_duplicates_append_last drop_duplicates_id [OF d])
  then show ?thesis
    by (auto simp: row_of_def find_append find_filter_other split: option.splits)
qed

lemma row_of_upserts:
  assumes "distinct (map subset_key t)"
  shows "row_of k (upserts cs t) =
     (case last_call k cs of None \<Rightarrow> row_of k t | Some c \<Rightarrow> Some (call_row c))"
  using assms
proof (induction cs arbitrary: t)
  case Nil
  then show ?case by (simp add: last_call_def)
next
  case (Cons c cs)
  have "distinct (map subset_key (upsert_call c t))" by (rule distinct_upsert_call)
  from Cons.IH [OF this] show ?case
    using Cons.prems
    by (auto simp: last_call_def find_append row_of_upsert_call split: option.splits)
qed

lemma others_upsert_call:
  assumes "distinct (map subset_key t)"
  shows "filter (\<lambda>r. subset_key r \<noteq> call_key c) (upsert_call c t) =
     filter (\<lambda>r. subset_key r \<noteq> call_key c) t"
proof -
  have d: "distinct (map subset_key (filter (\<lambda>x. subset_key x \<noteq> call_key c) t))"
    using assms by (simp add: distinct_map_filter)
  show ?thesis
    by (simp add: upsert_call_eq drop_duplicates_append_last drop_duplicates_id [OF d])
qed

text \<open>
  Claim C1. Start from the empty table and apply any sequence of upserts \<open>cs\<close>, then one
  more upsert \<open>c\<close>; keys may repeat freely. In the resulting table no key occurs in two
  rows, the keys that occur are exactly the keys of the calls, the row of each key is the
  row built by the last call for that key (its tag, mask status and notes), and the rows
  of the keys other than the key of \<open>c\<close> are the same rows in the same order as before
  the call \<open>c\<close>.
\<close>

theorem upsert_one_row_per_key_last_wins:
  "distinct (map subset_key (upserts (cs @ [c]) []))
   \<and> subset_key ` set (upserts (cs @ [c]) []) = call_key ` set (cs @ [c])
   \<and> (\<forall>k. row_of k (upserts (cs @ [c]) []) = map_option call_row (last_call k (cs @ [c])))
   \<and> filter (\<lambda>r. subset_key r \<noteq> call_key c) (upserts (cs @ [c]) [])
       = filter (\<lambda>r. subset_key r \<noteq> call_key c) (upserts cs [])"
proof -
  have d: "distinct (map subset_key (upserts cs []))"
    by (rule distinct_upserts) simp
  have 1: "distinct (map subset_key (upserts (cs @ [c]) []))"
    by (rule distinct_upserts) simp
  have 2: "subset_key ` set (upserts (cs @ [c]) []) = call_key ` set (cs @ [c])"
    by (simp only: keys_upserts) simp
  have 3: "row_of k (upserts (cs @ [c]) []) = map_option call_row (last_call k (cs @ [c]))"
    for k
  proof -
    have "row_of k [] = None" by (simp add: row_of_def)
    then show ?thesis
      by (simp add: row_of_upserts [of "[]"] split: option.splits)
  qed
  have 4: "filter (\<lambda>r. subset_key r \<noteq> call_key c) (upserts (cs @ [c]) [])
       = filter (\<lambda>r. subset_key r \<noteq> call_key c) (upserts cs [])"
    by (simp add: upserts_append others_upsert_call [OF d])
  from 1 2 3 4 show ?thesis by blast
qed

section \<open>The lookup that fills the form\<close>

lemma row_of_upsert_call_same:
  "row_of (call_key c) (upsert_call c t) = Some (call_row c)"
proof -
  have "find (\<lambda>r. subset_key r = call_key c)
          (drop_duplicates (filter (\<lambda>x. subset_key x \<noteq> call_key c) t)) = None"
    using set_drop_duplicates_subset [of "filter (\<lambda>x. subset_key x \<noteq> call_key c) t"]
    by (auto simp: find_None_iff)
  then show ?thesis
    by (simp add: row_of_def upsert_call_eq drop_duplicates_append_last find_append)
qed

lemma case_filter_find:
  "(case filter P t of [] \<Rightarrow> a | r # rs \<Rightarrow> f r) = (case find P t of None \<Rightarrow> a | Some r \<Rightarrow> f r)"
  by (induction t) simp_all

lemma lookup_prefill_row_of:
  "lookup_prefill folder base t =
     (case row_of (folder, base) t of
        None \<Rightarrow> \<lparr>existing_tag = '''', existing_notes = '''', previously_tagged = False\<rparr>
      | Some r \<Rightarrow> \<lparr>existing_tag = Tag r, existing_notes = Notes r, previously_tagged = True\<rparr>)"
proof -
  have "match folder base t = filter (\<lambda>r. subset_key r = (folder, base)) t"
    by (simp add: match_def subset_key_def)
  then show ?thesis
    by (simp add: lookup_prefill_def row_of_def case_filter_find)
qed

lemma last_call_None: "k \<notin> call_key ` set cs \<Longrightarrow> last_call k cs = None"
  unfolding last_call_def find_None_iff by (metis imageI set_rev)

lemma index_of_nth: "x \<in> set xs \<Longrightarrow> \<exists>i. index_of xs x = Some i \<and> i < length xs \<and> xs ! i = x"
  by (induction xs) auto

lemma classification_index_tag:
  assumes "existing_tag p \<in> set tag_options"
  shows "tag_options ! classification_index p = existing_tag p"
  using index_of_nth [OF assms] assms by (auto simp: classification_index_def)

text \<open>
  Claim C8. After an upsert for a key, and any later upserts none of which names that
  key, the lookup that fills the form finds a row with exactly the tag and the notes of
  that upsert (whatever the table held before), the notes area starts with those notes
  and the selectbox starts on that tag when it is one of the options. For a key that no
  upsert has named since the empty table, the lookup finds no row and the form starts
  on the first tag option, Benign, with empty notes.
\<close>

theorem lookup_after_upsert:
  "((\<forall>c \<in> set later. call_key c \<noteq> (folder, base)) \<longrightarrow>
      lookup_prefill folder base (upserts later (upsert folder base tag status notes t))
        = \<lparr>existing_tag = tag, existing_notes = notes, previously_tagged = True\<rparr>
      \<and> notes_value (lookup_prefill folder base
            (upserts later (upsert folder base tag status notes t))) = notes
      \<and> (tag \<in> set tag_options \<longrightarrow>
           tag_options ! classification_index (lookup_prefill folder base
             (upserts later (upsert folder base tag status notes t))) = tag))
   \<and> ((folder, base) \<notin> call_key ` set cs \<longrightarrow>
      lookup_prefill folder base (upserts cs [])
        = \<lparr>existing_tag = '''', existing_notes = '''', previously_tagged = False\<rparr>
      \<and> classification_index (lookup_prefill folder base (upserts cs [])) = 0
      \<and> tag_options ! classification_index (lookup_prefill folder base (upserts cs []))
          = ''Benign''
      \<and> notes_value (lookup_prefill folder base (upserts cs [])) = '''')"
proof (intro conjI impI)
  let ?c = "(folder, base, tag, status, notes)"
  let ?t = "upserts later (upsert folder base tag status notes t)"
  assume later: "\<forall>c \<in> set later. call_key c \<noteq> (folder, base)"
  have d: "distinct (map subset_key (upsert folder base tag status notes t))"
    using distinct_upsert_call [of ?c t] by simp
  have same: "row_of (folder, base) (upsert folder base tag status notes t) = Some (call_row ?c)"
    using row_of_upsert_call_same [of ?c t] by simp
  have "last_call (folder, base) later = None"
    using later by (intro last_call_None) auto
  then have "row_of (folder, base) ?t = Some (call_row ?c)"
    by (simp add: row_of_upserts [OF d] same)
  then show p: "lookup_prefill folder base ?t
        = \<lparr>existing_tag = tag, existing_notes = notes, previously_tagged = True\<rparr>"
    by (simp add: lookup_prefill_row_of)
  show "notes_value (lookup_prefill folder base ?t) = notes"
    by (simp add: p notes_value_def)
  assume "tag \<in> set tag_options"
  then show "tag_options ! classification_index (lookup_prefill folder base ?t) = tag"
    using classification_index_tag [of "lookup_prefill folder base ?t"] by (simp add: p)
next
  assume never: "(folder, base) \<notin> call_key ` set cs"
  have "row_of (folder, base) (upserts cs []) = None"
  proof -
    have "row_of (folder, base) [] = None" by (simp add: row_of_def)
    then show ?thesis
      using last_call_None [OF never] by (simp add: row_of_upserts [of "[]"])
  qed
  then show p: "lookup_prefill folder base (upserts cs [])
        = \<lparr>existing_tag = '''', existing_notes = '''', previously_tagged = False\<rparr>"
    by (simp add: lookup_prefill_row_of)
  show i: "classification_index (lookup_prefill folder base (upserts cs [])) = 0"
    by (simp add: p classification_index_def tag_options_def)
  show "tag_options ! classification_index (lookup_prefill folder base (upserts cs [])) = ''Benign''"
    by (simp add: i) (simp add: tag_options_def)
  show "notes_value (lookup_prefill folder base (upserts cs [])) = ''''"
    by (simp add: p notes_value_def)
qed

theorem lookup_after_upsert_witness:
  "lookup_prefill ''A'' ''s1''
     (upserts [(''A'', ''s2'', ''Benign'', ''No'', ''x'')]
        (upsert ''A'' ''s1'' ''Keep'' ''Yes'' ''ok''
           [\<lparr>Folder = ''A'', Base_Filename = ''s1'', Tag = ''Discard'',
             Mask_Saved = ''No'', Notes = ''old''\<rparr>]))
     = \<lparr>existing_tag = ''Keep'', existing_notes = ''ok'', previously_tagged = True\<rparr>
   \<and> lookup_prefill ''A'' ''s1'' (upserts [(''A'', ''s2'', ''Benign'', ''No'', ''x'')] [])
     = \<lparr>existing_tag = '''', existing_notes = '''', previously_tagged = False\<rparr>"
  using lookup_after_upsert [of "[(''A'', ''s2'', ''Benign'', ''No'', ''x'')]"
      "''A''" "''s1''" "''Keep''" "''Yes''" "''ok''"
      "[\<lparr>Folder = ''A'', Base_Filename = ''s1'', Tag = ''Discard'',
             Mask_Saved = ''No'', Notes = ''old''\<rparr>]"
      "[(''A'', ''s2'', ''Benign'', ''No'', ''x'')]"]
  by simp

section \<open>The dataset scanner: properties\<close>

text \<open>
  Claim C9. A file name that ends in \<open>_raw.png\<close> and holds \<open>_raw.png\<close> once more is
  collected by the scanner; the base name registered for it is what \<open>replace\<close> leaves,
  with every occurrence removed, and not the name with the suffix stripped.
\<close>

theorem base_name_of_repeated_suffix:
  "endswith ''a_raw.png_raw.png'' ''_raw.png''
   \<and> str_replace ''_raw.png'' '''' ''a_raw.png_raw.png'' = ''a''
   \<and> strip_suffix ''a_raw.png_raw.png'' ''_raw.png'' = ''a_raw.png''
   \<and> fold scan_item [(''/d'', [], [''a_raw.png_raw.png''])] []
       = [(''d'', \<lparr>path = ''/d'', base_names = [''a'']\<rparr>)]"
  by (simp add: endswith_def startswith_def strip_suffix_def basename_def)

lemma item_files_simps [simp]:
  "item_files [] = {}"
  "item_files ((dp, ds, fl) # items) = set fl \<union> item_files items"
  "item_files (xs @ ys) = item_files xs \<union> item_files ys"
  by (auto simp: item_files_def)

lemma filenames_simps [simp]:
  "filenames [] = []"
  "filenames ((name, File c) # es) = name # filenames es"
  "filenames ((name, Dir sub) # es) = filenames es"
  by (simp_all add: filenames_def)

lemma dirnames_simps [simp]:
  "dirnames [] = []"
  "dirnames ((name, File c) # es) = dirnames es"
  "dirnames ((name, Dir sub) # es) = name # dirnames es"
  by (simp_all add: dirnames_def)

lemma walk_files:
  "item_files (walk_dir top_path es) = set (files_under es)"
  "item_files (walk_subdirs top_path es) \<union> set (filenames es) = set (files_under es)"
  by (induction top_path es and top_path es rule: walk_dir_walk_subdirs.induct) auto

lemma scan_item_no_raw:
  "\<forall>f \<in> set files. \<not> endswith f ''_raw.png'' \<Longrightarrow> scan_item (dp, ds, files) tree = tree"
  by (simp add: filter_empty_conv)

lemma fold_scan_item_no_raw:
  "\<forall>f \<in> item_files items. \<not> endswith f ''_raw.png'' \<Longrightarrow> fold scan_item items tree = tree"
proof (induction items arbitrary: tree)
  case Nil
  then show ?case by simp
next
  case (Cons item items)
  obtain dp ds fl where item: "item = (dp, ds, fl)" by (cases item)
  with Cons show ?case by (simp add: filter_empty_conv del: scan_item.simps add: scan_item_no_raw)
qed

text \<open>
  Claim C4. If the root path does not exist, or no file ending in \<open>_raw.png\<close> lies
  anywhere under it, the scan shows an error (which one is stated) and returns the
  session state it was given, every field unchanged.
\<close>

theorem scan_failure_keeps_state:
  assumes "\<not> path_exists cwd fs root_path \<or> raw_files_under cwd fs root_path = []"
  shows "fst (scan_png_directory cwd fs root_path st) = st
     \<and> snd (scan_png_directory cwd fs root_path st) =
         Some (if \<not> path_exists cwd fs root_path then Cannot_Find root_path
               else No_Valid_PNG_Sets)"
proof (cases "path_exists cwd fs root_path")
  case False
  then show ?thesis by (simp add: scan_png_directory_def)
next
  case True
  with assms have none: "raw_files_under cwd fs root_path = []" by simp
  have "\<forall>f \<in> item_files (os_walk cwd fs root_path). \<not> endswith f ''_raw.png''"
    using none
    by (auto simp: os_walk_def raw_files_under_def walk_files(1) filter_empty_conv
        simp del: walk_dir.simps split: option.splits node.splits)
  then have "fold scan_item (os_walk cwd fs root_path) [] = []"
    by (rule fold_scan_item_no_raw)
  with True show ?thesis by (simp add: scan_png_directory_def)
qed

theorem scan_failure_keeps_state_witness:
  "fst (scan_png_directory ''/app'' no_raw_fs ''/app/_precomputed_data''
         (initial_state\<lparr>current_img_idx := 4\<rparr>)) = initial_state\<lparr>current_img_idx := 4\<rparr>
   \<and> snd (scan_png_directory ''/app'' no_raw_fs ''/app/_precomputed_data''
         (initial_state\<lparr>current_img_idx := 4\<rparr>)) = Some No_Valid_PNG_Sets"
proof -
  have c: "abs_comps ''/app'' ''/app/_precomputed_data'' = [''app'', ''_precomputed_data'']"
    by (simp add: abs_comps_def startswith_def)
  have e: "path_exists ''/app'' no_raw_fs ''/app/_precomputed_data''"
    by (simp add: path_exists_def c no_raw_fs_def)
  have r: "raw_files_under ''/app'' no_raw_fs ''/app/_precomputed_data'' = []"
    by (simp add: raw_files_under_def c no_raw_fs_def endswith_def)
  show ?thesis
    using scan_failure_keeps_state [of "''/app''" no_raw_fs "''/app/_precomputed_data''"
        "initial_state\<lparr>current_img_idx := 4\<rparr>"] e r
    by simp
qed

lemma update_fresh: "k \<notin> fst ` set al \<Longrightarrow> AList.update k v al = al @ [(k, v)]"
  by (induction al) auto

lemma fst_entry_of: "fst (entry_of item) = basename (fst item)"
  by (cases item) simp

lemma scan_item_qualifying:
  "\<exists>f \<in> set files. endswith f ''_raw.png'' \<Longrightarrow>
     scan_item (dp, ds, files) tree = AList.update (basename dp) (snd (entry_of (dp, ds, files))) tree"
  by (auto simp: filter_empty_conv Let_def)

lemma fold_scan_item_distinct:
  "distinct (map fst acc @ map (basename \<circ> fst) (qualifying items)) \<Longrightarrow>
     fold scan_item items acc = acc @ map entry_of (qualifying items)"
proof (induction items arbitrary: acc)
  case Nil
  then show ?case by (simp add: qualifying_def)
next
  case (Cons item items)
  obtain dp ds fl where item: "item = (dp, ds, fl)" by (cases item)
  show ?case
  proof (cases "\<exists>f \<in> set fl. endswith f ''_raw.png''")
    case True
    then have q: "qualifying (item # items) = item # qualifying items"
      by (simp add: qualifying_def item)
    have d': "distinct (map fst acc @ map (basename \<circ> fst) (item # qualifying items))"
      using Cons.prems by (simp only: q)
    have fresh: "basename dp \<notin> fst ` set acc"
      using d' by (auto simp: item)
    have step: "scan_item item acc = acc @ [entry_of item]"
      using True fresh by (simp add: item scan_item_qualifying update_fresh del: scan_item.simps)
    have "distinct (map fst (acc @ [entry_of item]) @ map (basename \<circ> fst) (qualifying items))"
      using d' by (auto simp: item)
    from Cons.IH [OF this] show ?thesis
      by (simp add: step q del: scan_item.simps entry_of.simps)
  next
    case False
    then have q: "qualifying (item # items) = qualifying items"
      by (simp add: qualifying_def item)
    have "scan_item item acc = acc"
      using False by (simp only: item) (rule scan_item_no_raw, blast)
    with Cons show ?thesis by (simp add: q del: scan_item.simps)
  qed
qed

lemma os_walk_nonempty_exists:
  "os_walk cwd fs root_path \<noteq> [] \<Longrightarrow> path_exists cwd fs root_path"
  by (auto simp: os_walk_def path_exists_def split: option.splits)

text \<open>
  Claim C5, amended. Let the walk of the root meet N qualifying folders (N at least 1)
  whose leaf names are pairwise distinct. Then the scan shows no error and installs a
  tree with exactly N keys, the leaf names in walk order; each qualifying folder is
  mapped to its path and to the sorted list of its base names; the current folder is
  the first qualifying folder, the index is 0 and the scan is marked complete.
\<close>

theorem scan_installs_tree:
  assumes q: "qualifying (os_walk cwd fs root_path) = q1 # qs"
    and d: "distinct (map (basename \<circ> fst) (q1 # qs))"
  shows "snd (scan_png_directory cwd fs root_path st) = None
     \<and> scan_complete (fst (scan_png_directory cwd fs root_path st))
     \<and> current_folder (fst (scan_png_directory cwd fs root_path st)) = Some (basename (fst q1))
     \<and> current_img_idx (fst (scan_png_directory cwd fs root_path st)) = 0
     \<and> annotations (fst (scan_png_directory cwd fs root_path st)) = annotations st
     \<and> map fst (file_tree (fst (scan_png_directory cwd fs root_path st)))
         = map (basename \<circ> fst) (q1 # qs)
     \<and> length (file_tree (fst (scan_png_directory cwd fs root_path st))) = length (q1 # qs)
     \<and> (\<forall>(dirpath, dirs, files) \<in> set (q1 # qs).
          \<exists>entry. map_of (file_tree (fst (scan_png_directory cwd fs root_path st)))
                     (basename dirpath) = Some entry
            \<and> path entry = dirpath
            \<and> base_names entry = sort (map (str_replace ''_raw.png'' '''')
                                          (filter (\<lambda>f. endswith f ''_raw.png'') files))
            \<and> sorted (base_names entry))"
proof -
  let ?items = "os_walk cwd fs root_path"
  have tree: "fold scan_item ?items [] = map entry_of (q1 # qs)"
    using fold_scan_item_distinct [of "[]" ?items] d by (simp add: q)
  have "?items \<noteq> []" using q by (auto simp: qualifying_def)
  then have ex: "path_exists cwd fs root_path" by (rule os_walk_nonempty_exists)
  obtain dp ds fl where q1: "q1 = (dp, ds, fl)" by (cases q1)
  define st' where "st' = fst (scan_png_directory cwd fs root_path st)"
  have res: "scan_png_directory cwd fs root_path st =
      (st\<lparr>file_tree := map entry_of (q1 # qs), current_folder := Some (basename (fst q1)),
          current_img_idx := 0, scan_complete := True\<rparr>, None)"
    using ex by (simp add: scan_png_directory_def tree) (simp add: q1)
  have ft: "file_tree st' = map entry_of (q1 # qs)" by (simp add: st'_def res)
  have keys: "map fst (map entry_of (q1 # qs)) = map (basename \<circ> fst) (q1 # qs)"
    by (simp add: fst_entry_of del: entry_of.simps)
  have dk: "distinct (map fst (map entry_of (q1 # qs)))" using d by (simp only: keys)
  have each: "\<exists>entry. map_of (map entry_of (q1 # qs)) (basename dirpath) = Some entry
            \<and> path entry = dirpath
            \<and> base_names entry = sort (map (str_replace ''_raw.png'' '''')
                                          (filter (\<lambda>f. endswith f ''_raw.png'') files))
            \<and> sorted (base_names entry)"
    if "(dirpath, dirs, files) \<in> set (q1 # qs)" for dirpath dirs files
  proof -
    from that have "entry_of (dirpath, dirs, files) \<in> entry_of ` set (q1 # qs)"
      by (rule imageI)
    then have "entry_of (dirpath, dirs, files) \<in> set (map entry_of (q1 # qs))"
      by (simp only: set_map)
    then have "map_of (map entry_of (q1 # qs)) (basename dirpath)
        = Some (snd (entry_of (dirpath, dirs, files)))"
      using map_of_is_SomeI [OF dk] by simp
    then show ?thesis by simp
  qed
  show ?thesis
    unfolding st'_def [symmetric]
    using each by (simp only: ft keys) (auto simp: st'_def res)
qed

lemma app_data_comps:
  "abs_comps ''/app'' ''/app/_precomputed_data'' = [''app'', ''_precomputed_data'']"
  by (simp add: abs_comps_def startswith_def)

theorem scan_installs_tree_witness:
  "snd (scan_png_directory ''/app'' two_folder_fs ''/app/_precomputed_data'' initial_state) = None
   \<and> map fst (file_tree (fst (scan_png_directory ''/app'' two_folder_fs
         ''/app/_precomputed_data'' initial_state))) = [''A'', ''B'']
   \<and> current_folder (fst (scan_png_directory ''/app'' two_folder_fs
         ''/app/_precomputed_data'' initial_state)) = Some ''A''"
proof -
  let ?A = "(''/app/_precomputed_data/A'', [], [''s2_raw.png'', ''s1_raw.png'', ''s1_norm.png''])"
  let ?B = "(''/app/_precomputed_data/B'', [], [''t_raw.png''])"
  let ?st = "fst (scan_png_directory ''/app'' two_folder_fs ''/app/_precomputed_data''
                initial_state)"
  have w: "os_walk ''/app'' two_folder_fs ''/app/_precomputed_data'' =
      [(''/app/_precomputed_data'', [''A'', ''B''], []), ?A, ?B]"
    by (simp add: os_walk_def app_data_comps two_folder_fs_def path_join_def startswith_def
        endswith_def dirnames_def filenames_def)
  have q: "qualifying (os_walk ''/app'' two_folder_fs ''/app/_precomputed_data'') = ?A # [?B]"
    by (simp add: w qualifying_def endswith_def)
  have b: "basename ''/app/_precomputed_data/A'' = ''A''"
    "basename ''/app/_precomputed_data/B'' = ''B''"
    by (simp_all add: basename_def)
  have d: "distinct (map (basename \<circ> fst) (?A # [?B]))"
    by (simp add: b)
  have s: "sort (map (str_replace ''_raw.png'' '''')
      (filter (\<lambda>f. endswith f ''_raw.png'') [''s2_raw.png'', ''s1_raw.png'', ''s1_norm.png'']))
      = [''s1'', ''s2'']"
    by (simp add: endswith_def startswith_def)
  note t = scan_installs_tree [OF q d, of initial_state]
  have 1: "snd (scan_png_directory ''/app'' two_folder_fs ''/app/_precomputed_data''
      initial_state) = None"
    using t by (simp add: b endswith_def startswith_def)
  have 2: "map fst (file_tree ?st) = [''A'', ''B'']"
    using t by (simp add: b endswith_def startswith_def)
  have 3: "current_folder ?st = Some ''A''"
    using t by (simp add: b endswith_def startswith_def)
  from 1 2 3 show ?thesis by blast
qed

text \<open>
  Two qualifying folders with the same leaf name, \<open>a/x\<close> and \<open>b/x\<close>: the scan
  succeeds and the tree has one key, mapped to the folder walked last.
\<close>

theorem scan_same_leaf_name_counterexample:
  "length (qualifying (os_walk ''/app'' twin_leaf_fs ''/app/_precomputed_data'')) = 2
   \<and> snd (scan_png_directory ''/app'' twin_leaf_fs ''/app/_precomputed_data'' initial_state) = None
   \<and> file_tree (fst (scan_png_directory ''/app'' twin_leaf_fs ''/app/_precomputed_data''
        initial_state))
      = [(''x'', \<lparr>path = ''/app/_precomputed_data/b/x'', base_names = [''t'']\<rparr>)]"
proof -
  have w: "os_walk ''/app'' twin_leaf_fs ''/app/_precomputed_data'' =
      [(''/app/_precomputed_data'', [''a'', ''b''], []),
       (''/app/_precomputed_data/a'', [''x''], []),
       (''/app/_precomputed_data/a/x'', [], [''s_raw.png'']),
       (''/app/_precomputed_data/b'', [''x''], []),
       (''/app/_precomputed_data/b/x'', [], [''t_raw.png''])]"
    by (simp add: os_walk_def app_data_comps twin_leaf_fs_def path_join_def startswith_def
        endswith_def dirnames_def filenames_def)
  have e: "path_exists ''/app'' twin_leaf_fs ''/app/_precomputed_data''"
    by (simp add: path_exists_def app_data_comps twin_leaf_fs_def)
  have f: "fold scan_item (os_walk ''/app'' twin_leaf_fs ''/app/_precomputed_data'') []
      = [(''x'', \<lparr>path = ''/app/_precomputed_data/b/x'', base_names = [''t'']\<rparr>)]"
    by (simp add: w endswith_def startswith_def basename_def Let_def)
  show ?thesis
    by (simp add: scan_png_directory_def e f) (simp add: w qualifying_def endswith_def)
qed

section \<open>The invariant of the session\<close>

lemma set_update_cases: "x \<in> set (AList.update k v t) \<Longrightarrow> x = (k, v) \<or> x \<in> set t"
  by (induction t) (auto split: if_splits)

lemma tree_ok_scan_item: "tree_ok t \<Longrightarrow> tree_ok (scan_item item t)"
proof -
  assume ok: "tree_ok t"
  obtain dp ds fl where item: "item = (dp, ds, fl)" by (cases item)
  show ?thesis
  proof (cases "\<exists>f \<in> set fl. endswith f ''_raw.png''")
    case True
    then have "filter (\<lambda>f. endswith f ''_raw.png'') fl \<noteq> []"
      by (simp add: filter_empty_conv)
    then have "length (base_names (snd (entry_of (dp, ds, fl)))) \<noteq> 0"
      by simp
    then have ne: "base_names (snd (entry_of (dp, ds, fl))) \<noteq> []"
      by (simp only: length_0_conv not_False_eq_True)
    with ok show ?thesis
      unfolding item scan_item_qualifying [OF True] tree_ok_def
      by (auto simp: distinct_update simp del: entry_of.simps dest!: set_update_cases)
  next
    case False
    then have "scan_item item t = t"
      unfolding item by (intro scan_item_no_raw) blast
    with ok show ?thesis by simp
  qed
qed

lemma tree_ok_fold_scan_item: "tree_ok t \<Longrightarrow> tree_ok (fold scan_item items t)"
  by (induction items arbitrary: t) (simp_all add: tree_ok_scan_item del: scan_item.simps)

lemma tree_ok_key:
  assumes "tree_ok t" and "folder \<in> set (map fst t)"
  shows "\<exists>entry. map_of t folder = Some entry \<and> base_names entry \<noteq> []"
proof -
  from assms(2) obtain entry where "map_of t folder = Some entry"
    by (metis map_of_eq_None_iff not_Some_eq set_map)
  moreover from this have "(folder, entry) \<in> set t" by (rule map_of_SomeD)
  ultimately show ?thesis using assms(1) by (auto simp: tree_ok_def)
qed

lemma in_bounds_first:
  assumes "tree_ok t" and "folder \<in> set (map fst t)"
  shows "in_bounds (st\<lparr>file_tree := t, current_folder := Some folder, current_img_idx := 0,
            scan_complete := b\<rparr>)"
  using tree_ok_key [OF assms] by (auto simp: in_bounds_def)

lemma session_inv_scan:
  assumes "session_inv st"
  shows "session_inv (fst (scan_png_directory cwd fs root_path st))"
proof (cases "fold scan_item (os_walk cwd fs root_path) []")
  case Nil
  with assms show ?thesis by (simp add: scan_png_directory_def)
next
  case (Cons first rest)
  obtain folder entry where first: "first = (folder, entry)" by (cases first)
  have "tree_ok (fold scan_item (os_walk cwd fs root_path) [])"
    by (rule tree_ok_fold_scan_item) (simp add: tree_ok_def)
  then have ok: "tree_ok ((folder, entry) # rest)" by (simp add: Cons first)
  have "in_bounds (st\<lparr>file_tree := (folder, entry) # rest, current_folder := Some folder,
      current_img_idx := 0, scan_complete := True\<rparr>)"
    by (rule in_bounds_first [OF ok]) simp
  with ok assms show ?thesis
    by (simp add: scan_png_directory_def Cons first session_inv_def)
qed

lemma session_inv_select_folder:
  assumes "session_inv st" and "selected_folder \<in> set (map fst (file_tree st))"
  shows "session_inv (select_folder selected_folder st)"
proof -
  from assms have ok: "tree_ok (file_tree st)" by (simp add: session_inv_def)
  from tree_ok_key [OF ok assms(2)] assms(1) show ?thesis
    by (auto simp: select_folder_def session_inv_def in_bounds_def)
qed

lemma session_inv_previous:
  assumes "session_inv st" and "scan_complete st" and "current_img_idx st \<noteq> 0"
  shows "session_inv (previous st)"
  using assms by (auto simp: previous_def session_inv_def in_bounds_def)

lemma session_inv_advance:
  assumes inv: "session_inv st" and sc: "scan_complete st"
    and cur: "current_folder st = Some folder"
  shows "session_inv (fst (advance folder st))"
proof -
  from inv sc cur obtain entry where e: "map_of (file_tree st) folder = Some entry"
    and lo: "0 \<le> current_img_idx st" and hi: "current_img_idx st < int (length (base_names entry))"
    by (auto simp: session_inv_def in_bounds_def)
  from inv have ok: "tree_ok (file_tree st)" by (simp add: session_inv_def)
  show ?thesis
  proof (cases "current_img_idx st < int (length (base_names entry)) - 1")
    case True
    with inv sc cur e lo show ?thesis
      by (auto simp: advance_def session_inv_def in_bounds_def)
  next
    case False
    let ?folders = "map fst (file_tree st)"
    show ?thesis
    proof (cases "index_of ?folders folder")
      case None
      with inv e False show ?thesis by (simp add: advance_def)
    next
      case (Some i)
      show ?thesis
      proof (cases "int i < int (length ?folders) - 1")
        case True
        then have "?folders ! (i + 1) \<in> set ?folders" by (intro nth_mem) simp
        from tree_ok_key [OF ok this] inv sc show ?thesis
          using e False Some True
          by (auto simp: advance_def session_inv_def in_bounds_def Let_def)
      next
        case False
        with inv e \<open>\<not> current_img_idx st < int (length (base_names entry)) - 1\<close> Some
        show ?thesis by (simp add: advance_def Let_def)
      qed
    qed
  qed
qed

lemma current_sample_in_bounds:
  assumes "in_bounds st"
  shows "\<exists>folder entry. current_folder st = Some folder
     \<and> map_of (file_tree st) folder = Some entry
     \<and> current_sample st = Inr (folder, base_names entry ! nat (current_img_idx st))"
  using assms by (auto simp: in_bounds_def current_sample_def py_get_def)

lemma session_inv_click_save_next:
  assumes inv: "session_inv st" and sc: "scan_complete st"
  shows "session_inv (fst (click_save_next cwd selected_tag notes_input canvas_result (st, fs)))"
proof (cases canvas_result)
  case None
  with inv show ?thesis
    by (simp add: click_save_next_def split: sum.splits prod.splits)
next
  case (Some mask_data)
  from inv sc have "in_bounds st" by (simp add: session_inv_def)
  from current_sample_in_bounds [OF this] obtain folder and entry :: folder_entry
    where cur: "current_folder st = Some folder"
      and cs: "current_sample st = Inr (folder, base_names entry ! nat (current_img_idx st))"
    by blast
  let ?base = "base_names entry ! nat (current_img_idx st)"
  obtain fs' r where p: "persist_mask cwd folder ?base mask_data fs = (fs', r)"
    by (cases "persist_mask cwd folder ?base mask_data fs")
  show ?thesis
  proof (cases r)
    case (Inl e)
    with inv show ?thesis
      by (simp add: click_save_next_def Some cs save_annotation_and_next_def p)
  next
    case (Inr status)
    let ?st1 = "st\<lparr>annotations := upsert folder ?base selected_tag status notes_input (annotations st)\<rparr>"
    have inv1: "session_inv ?st1"
      using inv by (simp add: session_inv_def in_bounds_def)
    have "session_inv (fst (advance folder ?st1))"
      by (rule session_inv_advance [OF inv1]) (simp_all add: sc cur)
    then show ?thesis
      by (simp add: click_save_next_def Some cs save_annotation_and_next_def p Inr split_def
          Let_def)
  qed
qed

lemma session_inv_step:
  assumes "session_inv st" and "enabled e st"
  shows "session_inv (step cwd e st)"
proof (cases e)
  case (Load_Dataset fs)
  with assms show ?thesis by (simp add: session_inv_scan)
next
  case (Select_Folder f)
  with assms show ?thesis by (simp add: session_inv_select_folder)
next
  case Previous
  with assms show ?thesis by (simp add: session_inv_previous)
next
  case (Save_Next t n m fs)
  with assms show ?thesis by (simp add: session_inv_click_save_next)
next
  case (Export fs)
  with assms show ?thesis by simp
qed

lemma reachable_session_inv: "reachable cwd st \<Longrightarrow> session_inv st"
proof (induction rule: reachable.induct)
  case initial
  show ?case by (simp add: session_inv_def tree_ok_def initial_state_def)
next
  case (after st e)
  then show ?case by (simp add: session_inv_step)
qed

text \<open>
  Claim C7. In every session state reached from the initial state by the events of the
  page (scans that succeed or fail, folder choices, Previous, Save and Next with any
  form data, on any file system, and exports), whenever the scan is complete the
  current folder is a key of the tree and the index is at least 0 and less than the
  number of base names of that folder; so the page finds its sample
  \<open>base_names[current_img_idx]\<close> without an error.
\<close>

theorem reachable_index_in_bounds:
  assumes "reachable cwd st" and "scan_complete st"
  shows "\<exists>folder entry. current_folder st = Some folder
     \<and> map_of (file_tree st) folder = Some entry
     \<and> 0 \<le> current_img_idx st
     \<and> current_img_idx st < int (length (base_names entry))
     \<and> current_sample st = Inr (folder, base_names entry ! nat (current_img_idx st))"
proof -
  from assms have b: "in_bounds st"
    using reachable_session_inv [of cwd st] by (simp add: session_inv_def)
  from current_sample_in_bounds [OF b] b show ?thesis
    by (auto simp: in_bounds_def)
qed

lemma app_dirs:
  "DATA_DIR ''/app'' = ''/app/_precomputed_data''" "MASKS_DIR ''/app'' = ''/app/_masks''"
  by (simp_all add: DATA_DIR_def MASKS_DIR_def path_join_def startswith_def endswith_def)

lemma two_folder_walk:
  "os_walk ''/app'' two_folder_fs ''/app/_precomputed_data'' =
      [(''/app/_precomputed_data'', [''A'', ''B''], []),
       (''/app/_precomputed_data/A'', [], [''s2_raw.png'', ''s1_raw.png'', ''s1_norm.png'']),
       (''/app/_precomputed_data/B'', [], [''t_raw.png''])]"
  by (simp add: os_walk_def app_data_comps two_folder_fs_def path_join_def startswith_def
      endswith_def dirnames_def filenames_def)

lemma two_folder_loaded:
  "scan_png_directory ''/app'' two_folder_fs ''/app/_precomputed_data'' initial_state
     = (two_folder_state, None)"
proof -
  have e: "path_exists ''/app'' two_folder_fs ''/app/_precomputed_data''"
    by (simp add: path_exists_def app_data_comps two_folder_fs_def)
  have f: "fold scan_item (os_walk ''/app'' two_folder_fs ''/app/_precomputed_data'') []
      = file_tree two_folder_state"
    by (simp add: two_folder_walk endswith_def startswith_def basename_def Let_def
        two_folder_state_def)
  show ?thesis
    by (simp add: scan_png_directory_def e f) (simp add: two_folder_state_def initial_state_def)
qed

theorem reachable_index_in_bounds_witness:
  "reachable ''/app'' two_folder_state \<and> scan_complete two_folder_state
   \<and> (\<exists>folder entry. current_folder two_folder_state = Some folder
     \<and> map_of (file_tree two_folder_state) folder = Some entry
     \<and> 0 \<le> current_img_idx two_folder_state
     \<and> current_img_idx two_folder_state < int (length (base_names entry))
     \<and> current_sample two_folder_state
          = Inr (folder, base_names entry ! nat (current_img_idx two_folder_state)))"
proof -
  have "reachable ''/app'' (step ''/app'' (Load_Dataset two_folder_fs) initial_state)"
    by (rule reachable.after [OF reachable.initial]) simp
  then have r: "reachable ''/app'' two_folder_state"
    by (simp add: app_dirs two_folder_loaded)
  have sc: "scan_complete two_folder_state" by (simp add: two_folder_state_def)
  from r sc reachable_index_in_bounds [OF r sc] show ?thesis by blast
qed

section \<open>Paths\<close>

lemma split_sep_nonempty [simp]: "split_sep s \<noteq> []"
  by (induction s) (auto split: list.splits)

lemma split_sep_append: "split_sep (a @ CHR ''/'' # b) = split_sep a @ split_sep b"
  by (induction a) (auto split: list.splits)

lemma split_sep_no_sep: "CHR ''/'' \<notin> set b \<Longrightarrow> split_sep b = [b]"
  by (induction b) auto

lemma norm_comps_snoc:
  "valid_name b \<Longrightarrow> norm_comps acc (xs @ [b]) = norm_comps acc xs @ [b]"
  by (induction xs arbitrary: acc) (auto simp: valid_name_def)

lemma norm_comps_snoc_empty: "norm_comps acc (xs @ [[]]) = norm_comps acc xs"
  by (induction xs arbitrary: acc) auto

lemma endswith_sep: "endswith a ''/'' \<longleftrightarrow> (\<exists>a'. a = a' @ ''/'')"
proof
  assume "endswith a ''/''"
  then have "a = take (length a - 1) a @ ''/''"
    by (simp add: endswith_def) (metis append_take_drop_id)
  then show "\<exists>a'. a = a' @ ''/''" ..
next
  assume "\<exists>a'. a = a' @ ''/''"
  then show "endswith a ''/''" by (auto simp: endswith_def)
qed

lemma valid_name_not_abs: "valid_name b \<Longrightarrow> \<not> startswith b ''/''"
  by (cases b) (auto simp: valid_name_def startswith_def)

lemma comps_path_join:
  assumes "valid_name b"
  shows "norm_comps [] (split_sep (path_join a b)) = norm_comps [] (split_sep a) @ [b]"
proof -
  have sb: "split_sep b = [b]" using assms by (simp add: split_sep_no_sep valid_name_def)
  have nb: "\<not> startswith b ''/''" using assms by (rule valid_name_not_abs)
  show ?thesis
  proof (cases "a = []")
    case True
    then show ?thesis using assms nb by (simp add: path_join_def sb valid_name_def)
  next
    case False
    show ?thesis
    proof (cases "endswith a ''/''")
      case True
      then obtain a' where a: "a = a' @ ''/''" by (auto simp: endswith_sep)
      have 1: "split_sep (a @ b) = split_sep a' @ [b]"
        by (simp add: a split_sep_append sb)
      have 2: "split_sep a = split_sep a' @ [[]]"
        by (simp add: a split_sep_append)
      show ?thesis
        using True nb by (simp add: path_join_def 1 2 norm_comps_snoc [OF assms] norm_comps_snoc_empty)
    next
      case no: False
      have "split_sep (a @ ''/'' @ b) = split_sep a @ [b]"
        by (simp add: split_sep_append sb)
      then show ?thesis
        using no nb False by (simp add: path_join_def norm_comps_snoc [OF assms])
    qed
  qed
qed

lemma startswith_path_join:
  "startswith a ''/'' \<Longrightarrow> startswith (path_join a b) ''/''"
  by (cases a) (auto simp: path_join_def startswith_def)

lemma abs_comps_path_join:
  assumes "startswith a ''/''" and "valid_name b"
  shows "abs_comps cwd (path_join a b) = abs_comps cwd a @ [b]"
  using assms startswith_path_join [OF assms(1), of b]
  by (simp add: abs_comps_def comps_path_join)

lemma valid_masks: "valid_name ''_masks''" "valid_name ''_precomputed_data''"
  by (simp_all add: valid_name_def)

lemma valid_mask_file: "CHR ''/'' \<notin> set base_name \<Longrightarrow> valid_name (base_name @ ''_mask.png'')"
  by (auto simp: valid_name_def append_eq_Cons_conv)

lemma masks_dir_abs: "startswith cwd ''/'' \<Longrightarrow> startswith (MASKS_DIR cwd) ''/''"
  by (simp add: MASKS_DIR_def startswith_path_join)

lemma masks_dir_comps:
  "startswith cwd ''/'' \<Longrightarrow> abs_comps cwd (MASKS_DIR cwd) = abs_comps cwd cwd @ [''_masks'']"
  by (simp add: MASKS_DIR_def abs_comps_path_join valid_masks)

lemma folder_mask_dir_comps:
  assumes "startswith cwd ''/''" and "valid_name folder"
  shows "abs_comps cwd (path_join (MASKS_DIR cwd) folder)
     = abs_comps cwd cwd @ [''_masks'', folder]"
  using assms by (simp add: abs_comps_path_join masks_dir_abs masks_dir_comps)

lemma mask_path_comps:
  assumes "startswith cwd ''/''" and "valid_name folder" and "CHR ''/'' \<notin> set base_name"
  shows "abs_comps cwd (mask_path cwd folder base_name)
     = abs_comps cwd cwd @ [''_masks'', folder, base_name @ ''_mask.png'']"
proof -
  have a: "startswith (path_join (MASKS_DIR cwd) folder) ''/''"
    by (intro startswith_path_join masks_dir_abs assms(1))
  show ?thesis
    unfolding mask_path_def
    using abs_comps_path_join [OF a valid_mask_file [OF assms(3)], of cwd]
      folder_mask_dir_comps [OF assms(1,2)]
    by simp
qed

lemma path_join_plain:
  assumes "a \<noteq> []" and "\<not> endswith a ''/''" and "\<not> startswith b ''/''"
  shows "path_join a b = a @ ''/'' @ b"
  using assms by (simp add: path_join_def)

lemma endswith_append_iff:
  "b \<noteq> [] \<Longrightarrow> endswith (a @ b) ''/'' = endswith b ''/''"
  by (cases b rule: rev_cases) (auto simp: endswith_sep)

lemma mask_path_text:
  assumes "valid_name folder" and "CHR ''/'' \<notin> set base_name"
  shows "mask_path cwd folder base_name
     = MASKS_DIR cwd @ ''/'' @ folder @ ''/'' @ base_name @ ''_mask.png''"
proof -
  have m: "MASKS_DIR cwd \<noteq> []" "\<not> endswith (MASKS_DIR cwd) ''/''"
    by (auto simp: MASKS_DIR_def path_join_def startswith_def endswith_sep)
  have f: "\<not> startswith folder ''/''" using assms(1) by (rule valid_name_not_abs)
  have fe: "\<not> endswith folder ''/''" "folder \<noteq> []"
    using assms(1) by (auto simp: endswith_sep valid_name_def)
  have 1: "path_join (MASKS_DIR cwd) folder = MASKS_DIR cwd @ ''/'' @ folder"
    using m f by (rule path_join_plain)
  have 2: "\<not> endswith (MASKS_DIR cwd @ ''/'' @ folder) ''/''"
    using fe endswith_append_iff [of folder "MASKS_DIR cwd @ ''/''"] by simp
  have 3: "\<not> startswith (base_name @ ''_mask.png'') ''/''"
    using valid_name_not_abs [OF valid_mask_file [OF assms(2)]] .
  show ?thesis
    unfolding mask_path_def 1 using path_join_plain [OF _ 2 3] by simp
qed

section \<open>Making directories and writing files\<close>

lemma file_at_Nil [simp]: "file_at (Dir es) [] = None" "file_at (File c) [] = Some c"
  by (simp_all add: file_at_def)

lemma dir_at_Nil [simp]: "dir_at (Dir es) [] = True" "dir_at (File c) [] = False"
  by (simp_all add: dir_at_def)

lemma file_at_Cons:
  "file_at (Dir es) (y # qs) = (case map_of es y of None \<Rightarrow> None | Some c \<Rightarrow> file_at c qs)"
  "file_at (File c) (y # qs) = None"
  by (simp_all add: file_at_def split: option.splits)

lemma dir_at_Cons:
  "dir_at (Dir es) (y # qs) = (case map_of es y of None \<Rightarrow> False | Some c \<Rightarrow> dir_at c qs)"
  "dir_at (File c) (y # qs) = False"
  by (simp_all add: dir_at_def split: option.splits)

lemma makedirs_Inr_Dir: "makedirs d fs = Inr fs1 \<Longrightarrow> \<exists>es. fs = Dir es"
  by (cases fs; cases d) auto

lemma makedirs_prefix:
  "makedirs d fs = Inr fs1 \<Longrightarrow> take (length q) d = q \<Longrightarrow> dir_at fs1 q \<and> file_at fs q = None"
proof (induction d arbitrary: fs fs1 q)
  case Nil
  then show ?case by (cases fs) auto
next
  case (Cons x ds)
  from makedirs_Inr_Dir [OF Cons.prems(1)] obtain es where fs: "fs = Dir es" ..
  define child where "child = (case map_of es x of None \<Rightarrow> Dir [] | Some c \<Rightarrow> c)"
  from Cons.prems(1) obtain n where n: "makedirs ds child = Inr n"
    and fs1: "fs1 = Dir (AList.update x n es)"
    by (auto simp: fs child_def split: sum.splits)
  show ?case
  proof (cases q)
    case Nil
    then show ?thesis by (simp add: fs fs1)
  next
    case (Cons y qs)
    with Cons.prems(2) have y: "y = x" and p: "take (length qs) ds = qs" by auto
    from Cons.IH [OF n p] show ?thesis
      by (auto simp: Cons y fs fs1 dir_at_Cons file_at_Cons update_conv' child_def
          split: option.splits)
  qed
qed

lemma resolve_empty_dir: "qs \<noteq> [] \<Longrightarrow> resolve (Dir []) qs = None"
  by (cases qs) simp_all

lemma makedirs_other:
  "makedirs d fs = Inr fs1 \<Longrightarrow> take (length q) d \<noteq> q \<Longrightarrow> resolve fs1 q = resolve fs q"
proof (induction d arbitrary: fs fs1 q)
  case Nil
  then show ?case by (cases fs) auto
next
  case (Cons x ds)
  from makedirs_Inr_Dir [OF Cons.prems(1)] obtain es where fs: "fs = Dir es" ..
  define child where "child = (case map_of es x of None \<Rightarrow> Dir [] | Some c \<Rightarrow> c)"
  from Cons.prems(1) obtain n where n: "makedirs ds child = Inr n"
    and fs1: "fs1 = Dir (AList.update x n es)"
    by (auto simp: fs child_def split: sum.splits)
  from Cons.prems(2) obtain y qs where q: "q = y # qs" by (cases q) auto
  show ?case
  proof (cases "y = x")
    case False
    then show ?thesis by (simp add: q fs fs1 update_conv')
  next
    case True
    with Cons.prems(2) have np: "take (length qs) ds \<noteq> qs" by (simp add: q)
    then have "qs \<noteq> []" by auto
    with Cons.IH [OF n np] show ?thesis
      by (auto simp: q True fs fs1 update_conv' child_def resolve_empty_dir split: option.splits)
  qed
qed

lemma file_at_empty_dir: "file_at (Dir []) qs = None"
  by (cases qs) (simp_all add: file_at_def)

lemma makedirs_succeeds:
  "\<forall>n \<le> length d. file_at fs (take n d) = None \<Longrightarrow> \<exists>fs1. makedirs d fs = Inr fs1"
proof (induction d arbitrary: fs)
  case Nil
  then show ?case by (cases fs) auto
next
  case (Cons x ds)
  from Cons.prems have "file_at fs (take 0 (x # ds)) = None" by blast
  then obtain es where fs: "fs = Dir es" by (cases fs) auto
  define child where "child = (case map_of es x of None \<Rightarrow> Dir [] | Some c \<Rightarrow> c)"
  have "file_at child (take n ds) = None" if "n \<le> length ds" for n
  proof -
    from that Cons.prems have "file_at fs (take (Suc n) (x # ds)) = None" by auto
    then show ?thesis
      by (cases "map_of es x") (auto simp: fs file_at_Cons child_def file_at_empty_dir)
  qed
  then have "\<forall>n \<le> length ds. file_at child (take n ds) = None" by blast
  from Cons.IH [OF this] obtain n where "makedirs ds child = Inr n" ..
  then show ?case by (simp add: fs child_def)
qed

lemma write_file_resolve:
  "write_file p c fs = Inr fs2 \<Longrightarrow> resolve fs2 p = Some (File c)"
proof (induction p arbitrary: fs fs2)
  case Nil
  then show ?case by (cases fs) auto
next
  case (Cons x ps)
  then show ?case
    by (cases fs) (auto simp: update_conv' split: option.splits if_splits sum.splits)
qed

lemma write_file_other:
  "write_file p c fs = Inr fs2 \<Longrightarrow> q \<noteq> p \<Longrightarrow> file_at fs2 q = file_at fs q"
proof (induction p arbitrary: fs fs2 q)
  case Nil
  then show ?case by (cases fs; cases q) (auto simp: file_at_Cons)
next
  case (Cons x ps)
  from Cons.prems(1) obtain es where fs: "fs = Dir es" by (cases fs) auto
  show ?case
  proof (cases q)
    case Nil
    with Cons.prems(1) show ?thesis
      by (auto simp: fs split: option.splits if_splits sum.splits)
  next
    case q: (Cons y qs)
    show ?thesis
    proof (cases "map_of es x")
      case None
      with Cons.prems(1) have ps: "ps = []" and fs2: "fs2 = Dir (es @ [(x, File c)])"
        by (auto simp: fs split: if_splits)
      from Cons.prems(2) have "y \<noteq> x \<or> qs \<noteq> []" by (auto simp: q ps)
      then show ?thesis
        using None
        by (cases qs) (auto simp: q fs fs2 file_at_Cons map_add_def split: option.splits)
    next
      case (Some child)
      with Cons.prems(1) obtain n where n: "write_file ps c child = Inr n"
        and fs2: "fs2 = Dir (AList.update x n es)"
        by (auto simp: fs split: sum.splits)
      show ?thesis
      proof (cases "y = x")
        case False
        then show ?thesis by (simp add: q fs fs2 file_at_Cons update_conv')
      next
        case True
        with Cons.prems(2) have "qs \<noteq> ps" by (simp add: q)
        from Cons.IH [OF n this] show ?thesis
          by (simp add: q True fs fs2 file_at_Cons update_conv' Some)
      qed
    qed
  qed
qed

lemma write_file_prefix:
  "write_file p c fs = Inr fs2 \<Longrightarrow> n < length p \<Longrightarrow> file_at fs (take n p) = None"
proof (induction p arbitrary: fs fs2 n)
  case Nil
  then show ?case by simp
next
  case (Cons x ps)
  from Cons.prems(1) obtain es where fs: "fs = Dir es" by (cases fs) auto
  show ?case
  proof (cases n)
    case 0
    then show ?thesis by (simp add: fs)
  next
    case (Suc m)
    with Cons.prems(2) have m: "m < length ps" by simp
    show ?thesis
    proof (cases "map_of es x")
      case None
      then show ?thesis by (simp add: Suc fs file_at_Cons)
    next
      case (Some child)
      with Cons.prems(1) obtain k where "write_file ps c child = Inr k"
        by (auto simp: fs split: sum.splits)
      from Cons.IH [OF this m] show ?thesis by (simp add: Suc fs file_at_Cons Some)
    qed
  qed
qed

lemma write_file_succeeds:
  "dir_at fs d \<Longrightarrow> \<not> dir_at fs (d @ [f]) \<Longrightarrow> \<exists>fs2. write_file (d @ [f]) c fs = Inr fs2"
proof (induction d arbitrary: fs)
  case Nil
  then obtain es where fs: "fs = Dir es" by (cases fs) auto
  show ?case
  proof (cases "map_of es f")
    case None
    then show ?thesis by (simp add: fs)
  next
    case (Some a)
    with Nil.prems(2) obtain old where "a = File old"
      by (cases a) (auto simp: fs dir_at_Cons)
    with Some show ?thesis by (simp add: fs)
  qed
next
  case (Cons x ds)
  then obtain es where fs: "fs = Dir es" by (cases fs) (auto simp: dir_at_Cons)
  from Cons.prems(1) obtain child where ch: "map_of es x = Some child" and d: "dir_at child ds"
    by (auto simp: fs dir_at_Cons split: option.splits)
  from Cons.prems(2) have "\<not> dir_at child (ds @ [f])" by (simp add: fs dir_at_Cons ch)
  from Cons.IH [OF d this] obtain n where "write_file (ds @ [f]) c child = Inr n" ..
  then show ?case by (simp add: fs ch)
qed

lemma makedirs_file_at: "makedirs d fs = Inr fs1 \<Longrightarrow> file_at fs1 q = file_at fs q"
proof (cases "take (length q) d = q")
  case True
  assume "makedirs d fs = Inr fs1"
  from makedirs_prefix [OF this True] show ?thesis
    by (auto simp: dir_at_def file_at_def split: option.splits node.splits)
next
  case False
  assume "makedirs d fs = Inr fs1"
  from makedirs_other [OF this False] show ?thesis by (simp add: file_at_def)
qed

lemma fromarray_rgba_array:
  assumes "rgba_array a"
  shows "fromarray (astype_uint8 a) = Inr (mask_image a)"
    and "xsize (mask_image a) \<noteq> 0" and "ysize (mask_image a) \<noteq> 0"
proof -
  from assms have "length (shape a) = Suc (Suc (Suc 0))" by (simp add: rgba_array_def)
  then obtain h w c where s: "shape a = [h, w, c]"
    by (auto simp: length_Suc_conv)
  from assms s have n: "length (elements a) = h * w * 4" and hw: "0 < h" "0 < w"
    by (simp_all add: rgba_array_def)
  from n have "length (elements a) = w * h * 4" by (simp add: mult.commute)
  then show "fromarray (astype_uint8 a) = Inr (mask_image a)"
    by (simp add: fromarray_def astype_uint8_def mask_image_def s Let_def)
  from hw show "xsize (mask_image a) \<noteq> 0" and "ysize (mask_image a) \<noteq> 0"
    by (simp_all add: mask_image_def s)
qed

lemma persist_mask_saves:
  assumes d: "abs_comps cwd (path_join (MASKS_DIR cwd) folder) = d"
    and p: "abs_comps cwd (mask_path cwd folder base_name) = d @ [f]"
    and cs: "can_save (d @ [f]) fs"
    and buf: "rgba_array buf"
  shows "\<exists>fs'. persist_mask cwd folder base_name (Some buf) fs = (fs', Inr ''Yes'')
     \<and> (\<forall>q. file_at fs' q = (if q = d @ [f] then Some (Png (mask_image buf)) else file_at fs q))
     \<and> can_save (d @ [f]) fs'"
proof -
  let ?c = "Png (mask_image buf)"
  have "\<forall>n \<le> length d. file_at fs (take n d) = None"
  proof (intro allI impI)
    fix n assume n: "n \<le> length d"
    then have "n < length (d @ [f])" by simp
    with cs have "file_at fs (take n (d @ [f])) = None" unfolding can_save_def by blast
    with n show "file_at fs (take n d) = None" by simp
  qed
  from makedirs_succeeds [OF this] obtain fs1 where m: "makedirs d fs = Inr fs1" ..
  have d1: "dir_at fs1 d" using makedirs_prefix [OF m, of d] by simp
  have "resolve fs1 (d @ [f]) = resolve fs (d @ [f])"
    by (rule makedirs_other [OF m]) simp
  with cs have nd: "\<not> dir_at fs1 (d @ [f])" by (simp add: can_save_def dir_at_def)
  from write_file_succeeds [OF d1 nd] obtain fs2 where w: "write_file (d @ [f]) ?c fs1 = Inr fs2" ..
  have r: "resolve fs2 (d @ [f]) = Some (File ?c)" by (rule write_file_resolve [OF w])
  have files: "file_at fs2 q = (if q = d @ [f] then Some ?c else file_at fs q)" for q
  proof (cases "q = d @ [f]")
    case True
    with r show ?thesis by (simp add: file_at_def)
  next
    case False
    from write_file_other [OF w False] makedirs_file_at [OF m, of q] False
    show ?thesis by simp
  qed
  have "file_at fs2 (take n (d @ [f])) = None" if "n < length (d @ [f])" for n
  proof -
    have "take n (d @ [f]) \<noteq> d @ [f]"
    proof
      assume "take n (d @ [f]) = d @ [f]"
      then have "length (take n (d @ [f])) = length (d @ [f])" by (rule arg_cong)
      with that show False by simp
    qed
    then have "file_at fs2 (take n (d @ [f])) = file_at fs1 (take n (d @ [f]))"
      by (rule write_file_other [OF w])
    with write_file_prefix [OF w that] show ?thesis by simp
  qed
  moreover have "\<not> dir_at fs2 (d @ [f])" by (simp add: dir_at_def r)
  ultimately have cs2: "can_save (d @ [f]) fs2" unfolding can_save_def by blast
  have "image_save (d @ [f]) (mask_image buf) fs1 = Inr fs2"
    using w fromarray_rgba_array(2,3) [OF buf] by (simp add: image_save_def)
  then have "persist_mask cwd folder base_name (Some buf) fs = (fs2, Inr ''Yes'')"
    using m d p fromarray_rgba_array(1) [OF buf]
    by (simp add: persist_mask_def mask_path_def Let_def)
  with files cs2 show ?thesis by blast
qed

lemma persist_mask_refused:
  assumes d: "abs_comps cwd (path_join (MASKS_DIR cwd) folder) = d"
    and m: "makedirs d fs = Inr fs1"
    and r: "fromarray (astype_uint8 buf) = Inl e"
  shows "persist_mask cwd folder base_name (Some buf) fs = (fs1, Inl e)"
    and "file_at fs1 q = file_at fs q"
proof -
  show "persist_mask cwd folder base_name (Some buf) fs = (fs1, Inl e)"
    using d m r by (simp add: persist_mask_def Let_def)
  show "file_at fs1 q = file_at fs q" by (rule makedirs_file_at [OF m])
qed

lemma io_ok_persist:
  assumes "io_ok cwd folder base_name fs" and mk: "mask_ok mask_data"
  shows "\<exists>fs' status. persist_mask cwd folder base_name mask_data fs = (fs', Inr status)
     \<and> io_ok cwd folder base_name fs'"
proof (cases mask_data)
  case None
  with assms(1) show ?thesis by (simp add: persist_mask_def)
next
  case (Some buf)
  from assms(1) have c: "startswith cwd ''/''" and f: "valid_name folder"
    and b: "CHR ''/'' \<notin> set base_name"
    and cs: "can_save (abs_comps cwd (mask_path cwd folder base_name)) fs"
    by (simp_all add: io_ok_def)
  have p: "abs_comps cwd (mask_path cwd folder base_name)
      = (abs_comps cwd cwd @ [''_masks'', folder]) @ [base_name @ ''_mask.png'']"
    by (simp add: mask_path_comps [OF c f b])
  from mk Some have rb: "rgba_array buf" by (simp add: mask_ok_def)
  from persist_mask_saves [OF folder_mask_dir_comps [OF c f] p cs [unfolded p] rb]
  obtain fs' where 1: "persist_mask cwd folder base_name (Some buf) fs = (fs', Inr ''Yes'')"
    and 2: "can_save ((abs_comps cwd cwd @ [''_masks'', folder]) @ [base_name @ ''_mask.png'']) fs'"
    by blast
  from 2 c f b have "io_ok cwd folder base_name fs'" by (simp only: io_ok_def p) simp
  with 1 show ?thesis unfolding Some by blast
qed

section \<open>The mask step\<close>

text \<open>
  Claim C3. With no mask data the mask step returns the file system as it was (no file
  is created), records the status No and raises nothing. With mask data that is the
  image data of an RGBA canvas (height by width by four channels, at least one pixel),
  for a folder name and a base name without separator on a file system where the mask
  file can be created or replaced, the step records the status Yes, and the files of
  the file system afterwards are those before except for the one file at
  \<open>{masks root}/{folder}/{base}_mask.png\<close>, which holds the image of the array.
\<close>

theorem persist_mask_status_and_file:
  "persist_mask cwd folder base_name None fs = (fs, Inr ''No'')
   \<and> (io_ok cwd folder base_name fs \<and> rgba_array buf \<longrightarrow>
        mask_path cwd folder base_name
          = MASKS_DIR cwd @ ''/'' @ folder @ ''/'' @ base_name @ ''_mask.png''
        \<and> (\<exists>fs'. persist_mask cwd folder base_name (Some buf) fs = (fs', Inr ''Yes'')
              \<and> (\<forall>q. file_at fs' q =
                    (if q = abs_comps cwd (mask_path cwd folder base_name)
                     then Some (Png (mask_image buf)) else file_at fs q))))"
proof (intro conjI impI)
  show "persist_mask cwd folder base_name None fs = (fs, Inr ''No'')"
    by (simp add: persist_mask_def)
next
  assume a: "io_ok cwd folder base_name fs \<and> rgba_array buf"
  then have c: "startswith cwd ''/''" and f: "valid_name folder"
    and b: "CHR ''/'' \<notin> set base_name"
    and cs: "can_save (abs_comps cwd (mask_path cwd folder base_name)) fs"
    and rb: "rgba_array buf"
    by (simp_all add: io_ok_def)
  show "mask_path cwd folder base_name
          = MASKS_DIR cwd @ ''/'' @ folder @ ''/'' @ base_name @ ''_mask.png''"
    by (rule mask_path_text [OF f b])
  have p: "abs_comps cwd (mask_path cwd folder base_name)
      = (abs_comps cwd cwd @ [''_masks'', folder]) @ [base_name @ ''_mask.png'']"
    by (simp add: mask_path_comps [OF c f b])
  from persist_mask_saves [OF folder_mask_dir_comps [OF c f] p cs [unfolded p] rb]
  show "\<exists>fs'. persist_mask cwd folder base_name (Some buf) fs = (fs', Inr ''Yes'')
              \<and> (\<forall>q. file_at fs' q =
                    (if q = abs_comps cwd (mask_path cwd folder base_name)
                     then Some (Png (mask_image buf)) else file_at fs q))"
    unfolding p by blast
qed

lemma app_mask_comps:
  "abs_comps ''/app'' (mask_path ''/app'' ''A'' ''s1'') = [''app'', ''_masks'', ''A'', ''s1_mask.png'']"
  "abs_comps ''/app'' (mask_path ''/app'' ''B'' ''t'') = [''app'', ''_masks'', ''B'', ''t_mask.png'']"
  by (simp_all add: mask_path_def app_dirs path_join_def startswith_def endswith_def abs_comps_def)

lemma app_io_ok:
  "io_ok ''/app'' ''A'' ''s1'' two_folder_fs" "io_ok ''/app'' ''B'' ''t'' two_folder_fs"
  by (simp_all add: io_ok_def app_mask_comps startswith_def valid_name_def can_save_def
      All_less_Suc file_at_def dir_at_def two_folder_fs_def)

lemma red_pixel_rgba: "rgba_array red_pixel" "mask_image red_pixel = red_pixel_image"
  by (simp_all add: rgba_array_def mask_image_def red_pixel_def red_pixel_image_def)

theorem persist_mask_status_and_file_witness:
  "persist_mask ''/app'' ''A'' ''s1'' None two_folder_fs = (two_folder_fs, Inr ''No'')
   \<and> (\<exists>fs'. persist_mask ''/app'' ''A'' ''s1''
                (Some \<lparr>shape = [1, 1, 4], elements = [255, 0, 0, 77]\<rparr>) two_folder_fs
                = (fs', Inr ''Yes'')
         \<and> file_at fs' [''app'', ''_masks'', ''A'', ''s1_mask.png'']
             = Some (Png \<lparr>xsize = 1, ysize = 1, pixels = [255, 0, 0, 77]\<rparr>)
         \<and> file_at fs' [''app'', ''_precomputed_data'', ''B'', ''t_raw.png'']
             = file_at two_folder_fs [''app'', ''_precomputed_data'', ''B'', ''t_raw.png''])"
proof -
  note t = persist_mask_status_and_file [of "''/app''" "''A''" "''s1''" two_folder_fs red_pixel]
  from t have 1: "persist_mask ''/app'' ''A'' ''s1'' None two_folder_fs = (two_folder_fs, Inr ''No'')"
    by (rule conjunct1)
  from t app_io_ok(1) red_pixel_rgba(1) obtain fs' where
    2: "persist_mask ''/app'' ''A'' ''s1'' (Some red_pixel) two_folder_fs = (fs', Inr ''Yes'')"
    and 3: "\<forall>q. file_at fs' q =
        (if q = abs_comps ''/app'' (mask_path ''/app'' ''A'' ''s1'')
         then Some (Png (mask_image red_pixel)) else file_at two_folder_fs q)"
    by blast
  from 3 have 4: "file_at fs' [''app'', ''_masks'', ''A'', ''s1_mask.png'']
      = Some (Png red_pixel_image)"
    by (simp add: app_mask_comps red_pixel_rgba(2))
  from 3 have 5: "file_at fs' [''app'', ''_precomputed_data'', ''B'', ''t_raw.png'']
             = file_at two_folder_fs [''app'', ''_precomputed_data'', ''B'', ''t_raw.png'']"
    by (simp add: app_mask_comps)
  from 1 2 4 5 show ?thesis unfolding red_pixel_def red_pixel_image_def by blast
qed

text \<open>
  Mask data that is not the image data of an RGBA canvas: an array of three channels is
  refused by \<open>Image.fromarray\<close>, an empty array by the encoder. Both calls raise after
  \<open>makedirs\<close> has made the directory of the folder, and no mask file is written.
\<close>

lemma persist_mask_three_channels:
  "\<exists>fs'. persist_mask ''/app'' ''A'' ''s1''
            (Some \<lparr>shape = [1, 1, 3], elements = [255, 0, 0]\<rparr>) two_folder_fs
            = (fs', Inl ValueError)
        \<and> dir_at fs' [''app'', ''_masks'', ''A'']
        \<and> file_at fs' [''app'', ''_masks'', ''A'', ''s1_mask.png''] = None"
  by (simp add: persist_mask_def fromarray_def astype_uint8_def Let_def MASKS_DIR_def
      path_join_def startswith_def endswith_def abs_comps_def two_folder_fs_def
      dir_at_def file_at_def)

lemma persist_mask_empty_array:
  "\<exists>fs'. persist_mask ''/app'' ''A'' ''s1''
            (Some \<lparr>shape = [0, 0, 4], elements = []\<rparr>) two_folder_fs
            = (fs', Inl ValueError)
        \<and> file_at fs' [''app'', ''_masks'', ''A'', ''s1_mask.png''] = None"
  by (simp add: persist_mask_def fromarray_def astype_uint8_def image_save_def Let_def
      MASKS_DIR_def path_join_def startswith_def endswith_def abs_comps_def
      two_folder_fs_def file_at_def)

section \<open>Save and Next\<close>

lemma index_of_split:
  "folder \<notin> set before \<Longrightarrow> index_of (before @ folder # later) folder = Some (length before)"
  by (induction before) auto

lemma advance_cases:
  assumes e: "map_of (file_tree st) folder = Some entry"
    and keys: "map fst (file_tree st) = before @ folder # later"
    and d: "distinct (map fst (file_tree st))"
  shows "advance folder st =
     (if current_img_idx st < int (length (base_names entry)) - 1
      then (st\<lparr>current_img_idx := current_img_idx st + 1\<rparr>, Rerun None)
      else (case later of
              [] \<Rightarrow> (st, Rerun (Some All_Folders_Completed))
            | nxt # rest \<Rightarrow> (st\<lparr>current_folder := Some nxt, current_img_idx := 0\<rparr>, Rerun None)))"
proof -
  from d have "folder \<notin> set before" by (simp add: keys)
  then have i: "index_of (map fst (file_tree st)) folder = Some (length before)"
    by (simp add: keys index_of_split)
  have n: "(before @ folder # nxt # rest) ! Suc (length before) = nxt" for nxt rest
    by (simp add: nth_append)
  have len: "length (file_tree st) = length before + Suc (length later)"
    using arg_cong [OF keys, of length] by simp
  show ?thesis
  proof (cases later)
    case Nil
    then show ?thesis using len by (simp add: advance_def e i Let_def)
  next
    case (Cons nxt rest)
    have "map fst (file_tree st) ! Suc (length before) = nxt"
      by (simp only: keys Cons n)
    moreover have "Suc (length before) < length (file_tree st)"
      using len Cons by simp
    ultimately have nx: "fst (file_tree st ! Suc (length before)) = nxt"
      by (simp add: nth_map)
    show ?thesis using len Cons by (simp add: advance_def e i Let_def nx)
  qed
qed

lemma save_annotation_and_next_result:
  assumes e: "map_of (file_tree st) folder = Some entry"
    and keys: "map fst (file_tree st) = before @ folder # later"
    and d: "distinct (map fst (file_tree st))"
    and ok: "io_ok cwd folder base_name fs"
    and mk: "mask_ok mask_data"
  shows "\<exists>fs' status. io_ok cwd folder base_name fs'
     \<and> save_annotation_and_next cwd folder base_name tag notes mask_data (st, fs) =
       (let st1 = st\<lparr>annotations := upsert folder base_name tag status notes (annotations st)\<rparr> in
        if current_img_idx st < int (length (base_names entry)) - 1
        then (st1\<lparr>current_img_idx := current_img_idx st + 1\<rparr>, fs', Rerun None)
        else (case later of
                [] \<Rightarrow> (st1, fs', Rerun (Some All_Folders_Completed))
              | nxt # rest \<Rightarrow>
                  (st1\<lparr>current_folder := Some nxt, current_img_idx := 0\<rparr>, fs', Rerun None)))"
proof -
  from io_ok_persist [OF ok mk] obtain fs' status
    where p: "persist_mask cwd folder base_name mask_data fs = (fs', Inr status)"
      and ok': "io_ok cwd folder base_name fs'"
    by blast
  let ?st1 = "st\<lparr>annotations := upsert folder base_name tag status notes (annotations st)\<rparr>"
  have a: "advance folder ?st1 =
     (if current_img_idx ?st1 < int (length (base_names entry)) - 1
      then (?st1\<lparr>current_img_idx := current_img_idx ?st1 + 1\<rparr>, Rerun None)
      else (case later of
              [] \<Rightarrow> (?st1, Rerun (Some All_Folders_Completed))
            | nxt # rest \<Rightarrow> (?st1\<lparr>current_folder := Some nxt, current_img_idx := 0\<rparr>, Rerun None)))"
  proof (rule advance_cases)
    show "map_of (file_tree ?st1) folder = Some entry" using e by simp
    show "map fst (file_tree ?st1) = before @ folder # later" using keys by simp
    show "distinct (map fst (file_tree ?st1))" using d by simp
  qed
  have "save_annotation_and_next cwd folder base_name tag notes mask_data (st, fs) =
       (let st1 = ?st1 in
        if current_img_idx st < int (length (base_names entry)) - 1
        then (st1\<lparr>current_img_idx := current_img_idx st + 1\<rparr>, fs', Rerun None)
        else (case later of
                [] \<Rightarrow> (st1, fs', Rerun (Some All_Folders_Completed))
              | nxt # rest \<Rightarrow>
                  (st1\<lparr>current_folder := Some nxt, current_img_idx := 0\<rparr>, fs', Rerun None)))"
    by (simp add: save_annotation_and_next_def p a Let_def split: list.splits)
  with ok' show ?thesis by blast
qed

lemma save_repeatedly_terminal:
  assumes e: "map_of (file_tree st) folder = Some entry"
    and keys: "map fst (file_tree st) = before @ [folder]"
    and d: "distinct (map fst (file_tree st))"
    and ok: "io_ok cwd folder base_name fs"
    and last: "current_img_idx st = int (length (base_names entry)) - 1"
    and mks: "\<forall>call \<in> set calls. mask_ok (snd (snd call))"
  shows "\<exists>st' fs'. save_repeatedly cwd folder base_name calls (st, fs)
        = (st', fs', replicate (length calls) (Rerun (Some All_Folders_Completed)))
     \<and> current_folder st' = current_folder st
     \<and> current_img_idx st' = current_img_idx st
     \<and> file_tree st' = file_tree st"
  using e keys d ok last mks
proof (induction calls arbitrary: st fs)
  case Nil
  then show ?case by simp
next
  case (Cons call calls)
  obtain tag nts mask_data where call: "call = (tag, nts, mask_data)" by (cases call)
  have k: "map fst (file_tree st) = before @ folder # []" using Cons.prems(2) by simp
  have mk: "mask_ok mask_data" using Cons.prems(6) by (simp add: call)
  from save_annotation_and_next_result [OF Cons.prems(1) k Cons.prems(3,4) mk, of tag nts]
  obtain fs1 status where ok1: "io_ok cwd folder base_name fs1"
    and s: "save_annotation_and_next cwd folder base_name tag nts mask_data (st, fs) =
       (st\<lparr>annotations := upsert folder base_name tag status nts (annotations st)\<rparr>, fs1,
        Rerun (Some All_Folders_Completed))"
    using Cons.prems(5) by (auto simp: Let_def)
  let ?st1 = "st\<lparr>annotations := upsert folder base_name tag status nts (annotations st)\<rparr>"
  have "\<exists>st' fs'. save_repeatedly cwd folder base_name calls (?st1, fs1)
        = (st', fs', replicate (length calls) (Rerun (Some All_Folders_Completed)))
     \<and> current_folder st' = current_folder ?st1
     \<and> current_img_idx st' = current_img_idx ?st1
     \<and> file_tree st' = file_tree ?st1"
  proof (rule Cons.IH)
    show "map_of (file_tree ?st1) folder = Some entry" using Cons.prems(1) by simp
    show "map fst (file_tree ?st1) = before @ [folder]" using Cons.prems(2) by simp
    show "distinct (map fst (file_tree ?st1))" using Cons.prems(3) by simp
    show "io_ok cwd folder base_name fs1" by (rule ok1)
    show "current_img_idx ?st1 = int (length (base_names entry)) - 1"
      using Cons.prems(5) by simp
    show "\<forall>call \<in> set calls. mask_ok (snd (snd call))" using Cons.prems(6) by simp
  qed
  then show ?case by (auto simp: call s)
qed

text \<open>
  Claim C2. Take a browsing state: the scan is complete, the current folder is a key
  of the tree (a dict, its keys distinct) and the index is a position of its base names;
  let the mask of the sample be savable, and the mask data of the call be None or the
  image data of an RGBA canvas. Then \<open>save_annotation_and_next\<close> returns with the tree
  unchanged, and: if the index is not the last position of the folder it is advanced by
  1 in the same folder; otherwise, if a folder follows the current one in tree order,
  that folder becomes current at index 0; otherwise folder and index stay as they are
  and the completion message is shown. In that last position any number of further
  calls, with any tags and notes and each with such mask data, each end with the
  completion message, none raises, and folder and index are unchanged after them.
\<close>

theorem save_and_next_navigation:
  assumes "scan_complete st" and "current_folder st = Some folder"
    and "map_of (file_tree st) folder = Some entry"
    and "0 \<le> current_img_idx st"
    and "current_img_idx st < int (length (base_names entry))"
    and "distinct (map fst (file_tree st))"
    and "map fst (file_tree st) = before @ folder # later"
    and "io_ok cwd folder base_name fs"
    and "mask_ok mask_data"
  shows "(\<exists>st' fs' sig.
        save_annotation_and_next cwd folder base_name tag notes mask_data (st, fs) = (st', fs', sig)
      \<and> file_tree st' = file_tree st \<and> scan_complete st'
      \<and> (current_img_idx st \<noteq> int (length (base_names entry)) - 1 \<longrightarrow>
            current_folder st' = Some folder \<and> current_img_idx st' = current_img_idx st + 1
            \<and> sig = Rerun None)
      \<and> (current_img_idx st = int (length (base_names entry)) - 1 \<longrightarrow>
            (case later of
               nxt # rest \<Rightarrow>
                 current_folder st' = Some nxt \<and> current_img_idx st' = 0 \<and> sig = Rerun None
             | [] \<Rightarrow>
                 current_folder st' = Some folder \<and> current_img_idx st' = current_img_idx st
                 \<and> sig = Rerun (Some All_Folders_Completed))))
   \<and> (current_img_idx st = int (length (base_names entry)) - 1 \<and> later = []
        \<and> (\<forall>call \<in> set calls. mask_ok (snd (snd call))) \<longrightarrow>
        (\<exists>st' fs'. save_repeatedly cwd folder base_name calls (st, fs)
             = (st', fs', replicate (length calls) (Rerun (Some All_Folders_Completed)))
           \<and> current_folder st' = Some folder
           \<and> current_img_idx st' = current_img_idx st))"
proof (intro conjI impI)
  from save_annotation_and_next_result [OF assms(3,7,6,8,9), of tag "notes"]
  obtain fs' status where
    s: "save_annotation_and_next cwd folder base_name tag notes mask_data (st, fs) =
       (let st1 = st\<lparr>annotations := upsert folder base_name tag status notes (annotations st)\<rparr> in
        if current_img_idx st < int (length (base_names entry)) - 1
        then (st1\<lparr>current_img_idx := current_img_idx st + 1\<rparr>, fs', Rerun None)
        else (case later of
                [] \<Rightarrow> (st1, fs', Rerun (Some All_Folders_Completed))
              | nxt # rest \<Rightarrow>
                  (st1\<lparr>current_folder := Some nxt, current_img_idx := 0\<rparr>, fs', Rerun None)))"
    by blast
  show "\<exists>st' fs' sig.
        save_annotation_and_next cwd folder base_name tag notes mask_data (st, fs) = (st', fs', sig)
      \<and> file_tree st' = file_tree st \<and> scan_complete st'
      \<and> (current_img_idx st \<noteq> int (length (base_names entry)) - 1 \<longrightarrow>
            current_folder st' = Some folder \<and> current_img_idx st' = current_img_idx st + 1
            \<and> sig = Rerun None)
      \<and> (current_img_idx st = int (length (base_names entry)) - 1 \<longrightarrow>
            (case later of
               nxt # rest \<Rightarrow>
                 current_folder st' = Some nxt \<and> current_img_idx st' = 0 \<and> sig = Rerun None
             | [] \<Rightarrow>
                 current_folder st' = Some folder \<and> current_img_idx st' = current_img_idx st
                 \<and> sig = Rerun (Some All_Folders_Completed)))"
    using assms(1,2,5) by (cases later) (auto simp: s Let_def)
next
  assume t: "current_img_idx st = int (length (base_names entry)) - 1 \<and> later = []
        \<and> (\<forall>call \<in> set calls. mask_ok (snd (snd call)))"
  then have keys: "map fst (file_tree st) = before @ [folder]" using assms(7) by simp
  from t have l: "current_img_idx st = int (length (base_names entry)) - 1"
    and mks: "\<forall>call \<in> set calls. mask_ok (snd (snd call))" by simp_all
  from save_repeatedly_terminal [OF assms(3) keys assms(6,8) l mks] assms(2)
  show "\<exists>st' fs'. save_repeatedly cwd folder base_name calls (st, fs)
             = (st', fs', replicate (length calls) (Rerun (Some All_Folders_Completed)))
           \<and> current_folder st' = Some folder
           \<and> current_img_idx st' = current_img_idx st"
    by auto
qed

theorem save_and_next_navigation_witness:
  "(\<exists>st' fs' sig.
       save_annotation_and_next ''/app'' ''A'' ''s1'' ''Keep'' ''ok'' (Some red_pixel)
         (two_folder_state, two_folder_fs) = (st', fs', sig)
     \<and> current_folder st' = Some ''A'' \<and> current_img_idx st' = 1 \<and> sig = Rerun None)
   \<and> (\<exists>st' fs'.
       save_repeatedly ''/app'' ''B'' ''t''
         [(''Keep'', ''ok'', Some red_pixel), (''Discard'', [], None)]
         (two_folder_state\<lparr>current_folder := Some ''B''\<rparr>, two_folder_fs)
         = (st', fs', [Rerun (Some All_Folders_Completed), Rerun (Some All_Folders_Completed)])
     \<and> current_folder st' = Some ''B'' \<and> current_img_idx st' = 0)"
proof -
  let ?A = "\<lparr>path = ''/app/_precomputed_data/A'', base_names = [''s1'', ''s2'']\<rparr>"
  let ?B = "\<lparr>path = ''/app/_precomputed_data/B'', base_names = [''t'']\<rparr>"
  let ?stB = "two_folder_state\<lparr>current_folder := Some ''B''\<rparr>"
  have a: "scan_complete two_folder_state" "current_folder two_folder_state = Some ''A''"
    "map_of (file_tree two_folder_state) ''A'' = Some ?A"
    "0 \<le> current_img_idx two_folder_state"
    "current_img_idx two_folder_state < int (length (base_names ?A))"
    "distinct (map fst (file_tree two_folder_state))"
    "map fst (file_tree two_folder_state) = [] @ ''A'' # [''B'']"
    by (simp_all add: two_folder_state_def)
  have b: "scan_complete ?stB" "current_folder ?stB = Some ''B''"
    "map_of (file_tree ?stB) ''B'' = Some ?B"
    "0 \<le> current_img_idx ?stB"
    "current_img_idx ?stB < int (length (base_names ?B))"
    "distinct (map fst (file_tree ?stB))"
    "map fst (file_tree ?stB) = [''A''] @ ''B'' # []"
    by (simp_all add: two_folder_state_def)
  have ia: "current_img_idx two_folder_state \<noteq> int (length (base_names ?A)) - 1"
    "current_img_idx two_folder_state + 1 = 1"
    by (simp_all add: two_folder_state_def)
  have ib: "current_img_idx ?stB = int (length (base_names ?B)) - 1" "current_img_idx ?stB = 0"
    by (simp_all add: two_folder_state_def)
  have m: "mask_ok (Some red_pixel)" by (simp add: mask_ok_def red_pixel_rgba(1))
  have ms: "\<forall>call \<in> set [(''Keep'', ''ok'', Some red_pixel), (''Discard'', [], None)].
      mask_ok (snd (snd call))"
    by (simp add: mask_ok_def red_pixel_rgba(1))
  from save_and_next_navigation [OF a app_io_ok(1) m, of "''Keep''" "''ok''" "[]"] ia
  have 1: "\<exists>st' fs' sig.
       save_annotation_and_next ''/app'' ''A'' ''s1'' ''Keep'' ''ok'' (Some red_pixel)
         (two_folder_state, two_folder_fs) = (st', fs', sig)
     \<and> current_folder st' = Some ''A'' \<and> current_img_idx st' = 1 \<and> sig = Rerun None"
    by auto
  from save_and_next_navigation [OF b app_io_ok(2) m, of "''Keep''" "''ok''"
      "[(''Keep'', ''ok'', Some red_pixel), (''Discard'', [], None)]"] ib ms
  have 2: "\<exists>st' fs'.
       save_repeatedly ''/app'' ''B'' ''t''
         [(''Keep'', ''ok'', Some red_pixel), (''Discard'', [], None)] (?stB, two_folder_fs)
         = (st', fs', [Rerun (Some All_Folders_Completed), Rerun (Some All_Folders_Completed)])
     \<and> current_folder st' = Some ''B'' \<and> current_img_idx st' = 0"
    by (simp add: numeral_2_eq_2)
  from 1 2 show ?thesis by blast
qed

text \<open>
  With mask data that \<open>Image.fromarray\<close> refuses, the call raises before the table is
  touched: the session is returned as it was.
\<close>

lemma save_annotation_and_next_refused:
  "\<exists>fs'. save_annotation_and_next ''/app'' ''A'' ''s1'' ''Keep'' ''ok''
            (Some \<lparr>shape = [1, 1, 3], elements = [255, 0, 0]\<rparr>) (two_folder_state, two_folder_fs)
          = (two_folder_state, fs', Raised ValueError)"
  by (simp add: save_annotation_and_next_def persist_mask_def fromarray_def astype_uint8_def
      Let_def MASKS_DIR_def path_join_def startswith_def endswith_def abs_comps_def
      two_folder_fs_def)

section \<open>The export: properties\<close>

lemma valid_name_no_end_sep: "valid_name n \<Longrightarrow> \<not> endswith n ''/''"
  by (auto simp: endswith_sep valid_name_def)

lemma foldl_path_join:
  "a \<noteq> [] \<Longrightarrow> \<not> endswith a ''/'' \<Longrightarrow> \<forall>n \<in> set ns. valid_name n \<Longrightarrow>
     foldl path_join a ns = a @ concat (map (\<lambda>m. CHR ''/'' # m) ns)"
proof (induction ns arbitrary: a)
  case Nil
  then show ?case by simp
next
  case (Cons n ns)
  then have v: "valid_name n" by simp
  have j: "path_join a n = a @ ''/'' @ n"
    using Cons.prems(1,2) valid_name_not_abs [OF v] by (rule path_join_plain)
  have "n \<noteq> []" using v by (simp add: valid_name_def)
  then have e: "\<not> endswith (a @ ''/'' @ n) ''/''"
    using endswith_append_iff [of n "a @ ''/''"] valid_name_no_end_sep [OF v] by simp
  have "foldl path_join (a @ ''/'' @ n) ns = (a @ ''/'' @ n) @ concat (map (\<lambda>m. CHR ''/'' # m) ns)"
    by (rule Cons.IH) (use e Cons.prems(3) in simp_all)
  then show ?case by (simp add: j)
qed

lemma common_prefix_append: "common_prefix xs (xs @ ys) = xs"
  by (induction xs) simp_all

lemma relpath_below:
  assumes "p \<noteq> []" and "abs_comps cwd p = abs_comps cwd cwd @ r # rs"
    and "\<forall>n \<in> set (r # rs). valid_name n"
  shows "relpath cwd p cwd = Inr (join_names (r # rs))"
proof -
  have v: "valid_name r" using assms(3) by simp
  have "foldl path_join r rs = r @ concat (map (\<lambda>m. CHR ''/'' # m) rs)"
    by (rule foldl_path_join) (use v assms(3) valid_name_no_end_sep in \<open>auto simp: valid_name_def\<close>)
  then show ?thesis
    using assms(1) by (simp add: relpath_def assms(2) common_prefix_append Let_def)
qed

lemma resolve_append:
  "resolve fs (p @ q) = (case resolve fs p of None \<Rightarrow> None | Some n \<Rightarrow> resolve n q)"
proof (induction p arbitrary: fs)
  case Nil
  then show ?case by simp
next
  case (Cons x ps)
  then show ?case by (cases fs) (auto split: option.splits)
qed

lemma read_file_at: "file_at fs p = Some c \<Longrightarrow> read_file p fs = Inr c"
  by (auto simp: file_at_def read_file_def split: option.splits node.splits)

lemma add_files_result:
  assumes top: "startswith top_path ''/''"
    and comps: "abs_comps cwd top_path = abs_comps cwd cwd @ r"
    and names: "\<forall>n \<in> set r. valid_name n"
  shows "\<forall>(f, c) \<in> set fcs. valid_name f \<and> file_at fs (abs_comps cwd cwd @ r @ [f]) = Some c \<Longrightarrow>
     add_files cwd fs top_path (map fst fcs) zip_file
       = Inr (zip_file @ map (\<lambda>(f, c). (join_names (r @ [f]), Stored c)) fcs)"
proof (induction fcs arbitrary: zip_file)
  case Nil
  then show ?case by simp
next
  case (Cons fc fcs)
  obtain f c where fc: "fc = (f, c)" by (cases fc)
  from Cons.prems have v: "valid_name f"
    and at: "file_at fs (abs_comps cwd cwd @ r @ [f]) = Some c"
    by (simp_all add: fc)
  have pc: "abs_comps cwd (path_join top_path f) = abs_comps cwd cwd @ r @ [f]"
    by (simp add: abs_comps_path_join [OF top v] comps)
  have ne: "path_join top_path f \<noteq> []"
    using startswith_path_join [OF top, of f] by (auto simp: startswith_def)
  obtain x xs where rx: "r @ [f] = x # xs" by (cases r) auto
  have "\<forall>n \<in> set (x # xs). valid_name n"
    using names v by (simp only: rx [symmetric]) auto
  then have rel: "relpath cwd (path_join top_path f) cwd = Inr (join_names (r @ [f]))"
    using relpath_below [OF ne, of cwd x xs] pc by (simp add: rx)
  have w: "zip_write cwd fs (path_join top_path f) (join_names (r @ [f])) zip_file
      = Inr (zip_file @ [(join_names (r @ [f]), Stored c)])"
    by (simp add: zip_write_def pc read_file_at [OF at])
  have "add_files cwd fs top_path (map fst fcs) (zip_file @ [(join_names (r @ [f]), Stored c)])
      = Inr ((zip_file @ [(join_names (r @ [f]), Stored c)])
             @ map (\<lambda>(f, c). (join_names (r @ [f]), Stored c)) fcs)"
    by (rule Cons.IH) (use Cons.prems in simp)
  then show ?case by (simp add: fc rel w Let_def)
qed

lemma add_masks_append:
  "add_masks cwd fs (xs @ ys) zip_file =
     (case add_masks cwd fs xs zip_file of Inl e \<Rightarrow> Inl e | Inr z \<Rightarrow> add_masks cwd fs ys z)"
proof (induction xs arbitrary: zip_file)
  case Nil
  then show ?case by simp
next
  case (Cons item xs)
  obtain root dirs files where item: "item = (root, dirs, files)" by (cases item)
  show ?case by (simp add: item Cons.IH split: sum.splits)
qed

lemma filenames_own_files: "filenames es = map fst (own_files es)"
  by (induction es rule: own_files.induct) simp_all

lemma own_files_valid: "wf_entries es \<Longrightarrow> (f, c) \<in> set (own_files es) \<Longrightarrow> valid_name f"
  by (induction es rule: own_files.induct) auto

lemma own_files_in: "(f, c) \<in> set (own_files es) \<Longrightarrow> ([f], c) \<in> set (files_in es)"
  by (auto intro!: image_eqI [where x = "(f, c)"])

lemma export_walk:
  "wf_entries es \<Longrightarrow> startswith top_path ''/'' \<Longrightarrow>
   abs_comps cwd top_path = abs_comps cwd cwd @ r \<Longrightarrow> \<forall>n \<in> set r. valid_name n \<Longrightarrow>
   \<forall>(q, c) \<in> set (files_in es). file_at fs (abs_comps cwd cwd @ r @ q) = Some c \<Longrightarrow>
   add_masks cwd fs (walk_dir top_path es) zip_file
     = Inr (zip_file @ map (\<lambda>(q, c). (join_names (r @ q), Stored c)) (files_in es))"
  "wf_entries es \<Longrightarrow> startswith top_path ''/'' \<Longrightarrow>
   abs_comps cwd top_path = abs_comps cwd cwd @ r \<Longrightarrow> \<forall>n \<in> set r. valid_name n \<Longrightarrow>
   \<forall>(q, c) \<in> set (files_in_subdirs es). file_at fs (abs_comps cwd cwd @ r @ q) = Some c \<Longrightarrow>
   add_masks cwd fs (walk_subdirs top_path es) zip_file
     = Inr (zip_file @ map (\<lambda>(q, c). (join_names (r @ q), Stored c)) (files_in_subdirs es))"
proof (induction top_path es and top_path es arbitrary: zip_file r and zip_file r
    rule: walk_dir_walk_subdirs.induct)
  case (1 top_path es)
  let ?own = "map (\<lambda>(f, c). (join_names (r @ [f]), Stored c)) (own_files es)"
  have "\<forall>(f, c) \<in> set (own_files es).
      valid_name f \<and> file_at fs (abs_comps cwd cwd @ r @ [f]) = Some c"
  proof (intro ballI, clarify)
    fix f c assume m: "(f, c) \<in> set (own_files es)"
    from own_files_in [OF m] "1.prems"(5)
    have "file_at fs (abs_comps cwd cwd @ r @ [f]) = Some c" by blast
    with own_files_valid [OF "1.prems"(1) m]
    show "valid_name f \<and> file_at fs (abs_comps cwd cwd @ r @ [f]) = Some c" by simp
  qed
  from add_files_result [OF "1.prems"(2,3,4) this, of zip_file]
  have own: "add_files cwd fs top_path (filenames es) zip_file = Inr (zip_file @ ?own)"
    by (simp add: filenames_own_files)
  have sub: "add_masks cwd fs (walk_subdirs top_path es) (zip_file @ ?own)
      = Inr ((zip_file @ ?own)
             @ map (\<lambda>(q, c). (join_names (r @ q), Stored c)) (files_in_subdirs es))"
    by (rule "1.IH" [OF "1.prems"(1,2,3,4)]) (use "1.prems"(5) in simp)
  have "map (\<lambda>(q, c). (join_names (r @ q), Stored c)) (map (\<lambda>(name, c). ([name], c)) (own_files es))
      = ?own"
    by (simp add: split_def)
  then show ?case by (simp add: own sub)
next
  case (2 top_path)
  then show ?case by simp
next
  case (3 top_path name c es)
  from "3.prems" have "wf_entries es" by simp
  from "3.IH" [OF this "3.prems"(2,3,4), of zip_file] "3.prems"(5) show ?case by simp
next
  case (4 top_path name sub es)
  from "4.prems"(1) have v: "valid_name name" and ws: "wf_entries sub" and we: "wf_entries es"
    by simp_all
  let ?sub = "map (\<lambda>(q, c). (join_names ((r @ [name]) @ q), Stored c)) (files_in sub)"
  have "add_masks cwd fs (walk_dir (path_join top_path name) sub) zip_file = Inr (zip_file @ ?sub)"
  proof (rule "4.IH"(1) [OF ws])
    show "startswith (path_join top_path name) ''/''"
      by (rule startswith_path_join [OF "4.prems"(2)])
    show "abs_comps cwd (path_join top_path name) = abs_comps cwd cwd @ r @ [name]"
      by (simp add: abs_comps_path_join [OF "4.prems"(2) v] "4.prems"(3))
    show "\<forall>n \<in> set (r @ [name]). valid_name n" using "4.prems"(4) v by simp
    show "\<forall>(q, c) \<in> set (files_in sub).
        file_at fs (abs_comps cwd cwd @ (r @ [name]) @ q) = Some c"
      using "4.prems"(5) by (simp del: files_in.simps) (auto simp del: files_in.simps)
  qed
  moreover have "add_masks cwd fs (walk_subdirs top_path es) (zip_file @ ?sub)
      = Inr ((zip_file @ ?sub)
             @ map (\<lambda>(q, c). (join_names (r @ q), Stored c)) (files_in_subdirs es))"
    by (rule "4.IH"(2) [OF we "4.prems"(2,3,4)]) (use "4.prems"(5) in simp)
  moreover have "map (\<lambda>(q, c). (join_names (r @ q), Stored c))
        (map (\<lambda>(q, c). (name # q, c)) (files_in sub)) = ?sub"
    by (simp add: split_def del: files_in.simps)
  ultimately show ?case by (simp add: add_masks_append del: files_in.simps walk_dir.simps)
qed

lemma own_files_fst: "(f, c) \<in> set (own_files es) \<Longrightarrow> f \<in> fst ` set es"
  by (induction es rule: own_files.induct) auto

lemma own_files_map_of:
  "wf_entries es \<Longrightarrow> (f, c) \<in> set (own_files es) \<Longrightarrow> map_of es f = Some (File c)"
  by (induction es rule: own_files.induct) (auto dest: own_files_fst)

lemma map_of_own_files: "map_of es f = Some (File c) \<Longrightarrow> (f, c) \<in> set (own_files es)"
  by (induction es rule: own_files.induct) (auto split: if_splits)

lemma files_in_subdirs_fst:
  "(q, c) \<in> set (files_in_subdirs es) \<Longrightarrow> \<exists>name qs. q = name # qs \<and> name \<in> fst ` set es"
  by (induction es rule: own_files.induct) (auto simp del: files_in.simps)

lemma files_in_subdirs_map_of:
  "wf_entries es \<Longrightarrow> (q, c) \<in> set (files_in_subdirs es) \<Longrightarrow>
     \<exists>name sub qs. q = name # qs \<and> map_of es name = Some (Dir sub) \<and> (qs, c) \<in> set (files_in sub)"
proof (induction es rule: own_files.induct)
  case 1
  then show ?case by simp
next
  case (2 name c' es)
  from "2.prems" have m: "(q, c) \<in> set (files_in_subdirs es)" and w: "wf_entries es"
    and fresh: "name \<notin> fst ` set es" by simp_all
  from "2.IH" [OF w m] obtain n sub qs where q: "q = n # qs"
    and s: "map_of es n = Some (Dir sub)" and i: "(qs, c) \<in> set (files_in sub)" by blast
  from s have "n \<in> fst ` set es" by (metis domI dom_map_of_conv_image_fst)
  with fresh have "n \<noteq> name" by auto
  with q s i show ?case by (auto simp del: files_in.simps)
next
  case (3 name sub' es)
  from "3.prems" have w: "wf_entries es" and fresh: "name \<notin> fst ` set es" by simp_all
  from "3.prems"(2) consider
    (here) qs where "q = name # qs" "(qs, c) \<in> set (files_in sub')"
    | (there) "(q, c) \<in> set (files_in_subdirs es)"
    by (auto simp del: files_in.simps)
  then show ?case
  proof cases
    case here
    then show ?thesis by (auto simp del: files_in.simps)
  next
    case there
    from "3.IH" [OF w there] obtain n sub qs where q: "q = n # qs"
      and s: "map_of es n = Some (Dir sub)" and i: "(qs, c) \<in> set (files_in sub)" by blast
    from s have "n \<in> fst ` set es" by (metis domI dom_map_of_conv_image_fst)
    with fresh have "n \<noteq> name" by auto
    with q s i show ?thesis by (auto simp del: files_in.simps)
  qed
qed

lemma map_of_files_in_subdirs:
  "map_of es name = Some (Dir sub) \<Longrightarrow> (qs, c) \<in> set (files_in sub) \<Longrightarrow>
     (name # qs, c) \<in> set (files_in_subdirs es)"
  by (induction es rule: own_files.induct)
    (auto simp del: files_in.simps split: if_splits intro!: image_eqI [where x = "(qs, c)"])

lemma wf_entries_child:
  "wf_entries es \<Longrightarrow> map_of es name = Some (Dir sub) \<Longrightarrow> wf_entries sub"
  by (induction es rule: own_files.induct) (auto split: if_splits)

lemma files_in_iff:
  "wf_entries es \<Longrightarrow> ((q, c) \<in> set (files_in es)) = (file_at (Dir es) q = Some c)"
proof (induction q arbitrary: es)
  case Nil
  have "([], c) \<notin> set (files_in es)"
    by (auto dest: files_in_subdirs_fst)
  then show ?case by simp
next
  case (Cons n qs)
  show ?case
  proof
    assume "(n # qs, c) \<in> set (files_in es)"
    then consider (own) "qs = []" "(n, c) \<in> set (own_files es)"
      | (sub) "(n # qs, c) \<in> set (files_in_subdirs es)"
      by auto
    then show "file_at (Dir es) (n # qs) = Some c"
    proof cases
      case own
      from own_files_map_of [OF Cons.prems own(2)] own(1) show ?thesis
        by (simp add: file_at_Cons)
    next
      case sub
      from files_in_subdirs_map_of [OF Cons.prems sub] obtain d
        where s: "map_of es n = Some (Dir d)" and i: "(qs, c) \<in> set (files_in d)"
        by (auto simp del: files_in.simps)
      from Cons.IH [OF wf_entries_child [OF Cons.prems s]] i
      have "file_at (Dir d) qs = Some c" by simp
      then show ?thesis by (simp add: file_at_Cons s)
    qed
  next
    assume a: "file_at (Dir es) (n # qs) = Some c"
    then obtain child where ch: "map_of es n = Some child" and f: "file_at child qs = Some c"
      by (auto simp: file_at_Cons split: option.splits)
    show "(n # qs, c) \<in> set (files_in es)"
    proof (cases child)
      case (File c')
      with f have "qs = []" "c' = c" by (cases qs; simp add: file_at_Cons)+
      with ch File have "(n, c) \<in> set (own_files es)" by (simp add: map_of_own_files)
      then show ?thesis using \<open>qs = []\<close> by (auto intro!: image_eqI [where x = "(n, c)"])
    next
      case (Dir d)
      from Cons.IH [OF wf_entries_child [OF Cons.prems ch [unfolded Dir]]] f
      have "(qs, c) \<in> set (files_in d)" by (simp add: Dir)
      from map_of_files_in_subdirs [OF ch [unfolded Dir] this] show ?thesis by simp
    qed
  qed
qed

lemma file_at_append:
  "resolve fs p = Some n \<Longrightarrow> file_at fs (p @ q) = file_at n q"
  by (simp add: file_at_def resolve_append)

lemma create_export_zip_result:
  assumes c: "startswith cwd ''/''" and wf: "masks_wf cwd fs"
  shows "create_export_zip cwd st fs =
     Inr ((''hsd_annotations.xlsx'', Spreadsheet (to_excel (annotations st)))
          # map (\<lambda>(q, c). (join_names (''_masks'' # q), Stored c)) (mask_files cwd fs))"
proof (cases "resolve fs (abs_comps cwd (MASKS_DIR cwd))")
  case None
  then show ?thesis
    by (simp add: create_export_zip_def path_exists_def mask_files_def)
next
  case (Some n)
  show ?thesis
  proof (cases n)
    case (File x)
    with Some show ?thesis
      by (simp add: create_export_zip_def path_exists_def mask_files_def os_walk_def)
  next
    case (Dir es)
    let ?zip = "[(''hsd_annotations.xlsx'', Spreadsheet (to_excel (annotations st)))]"
    from wf Some Dir have w: "wf_entries es" by (simp add: masks_wf_def)
    have r: "resolve fs (abs_comps cwd cwd @ [''_masks'']) = Some (Dir es)"
      using Some Dir by (simp add: masks_dir_comps [OF c])
    have "add_masks cwd fs (walk_dir (MASKS_DIR cwd) es) ?zip
        = Inr (?zip @ map (\<lambda>(q, c). (join_names ([''_masks''] @ q), Stored c)) (files_in es))"
    proof (rule export_walk(1) [OF w masks_dir_abs [OF c] masks_dir_comps [OF c]])
      show "\<forall>n \<in> set [''_masks'']. valid_name n" by (simp add: valid_masks)
      show "\<forall>(q, c) \<in> set (files_in es).
          file_at fs (abs_comps cwd cwd @ [''_masks''] @ q) = Some c"
        using file_at_append [OF r] files_in_iff [OF w]
        by (auto simp del: files_in.simps)
    qed
    then show ?thesis
      using Some Dir
      by (simp add: create_export_zip_def path_exists_def mask_files_def os_walk_def
          del: files_in.simps walk_dir.simps)
  qed
qed










text \<open>
  Claim C10. Take two calls of \<open>create_export_zip\<close>, in two session states with the same
  annotation table and on two file systems (well formed under the masks root). Both
  return an archive, and the spreadsheet member is the same in both, whatever else
  differs between the states and the file systems. If moreover the masks root resolves
  to the same directory tree on both file systems, the mask members are the same too,
  and so the archives are equal.
\<close>

theorem export_twice_same_content:
  assumes "startswith cwd ''/''" and "masks_wf cwd fs1" and "masks_wf cwd fs2"
    and "annotations st1 = annotations st2"
  shows "\<exists>sheet masks1 masks2.
      create_export_zip cwd st1 fs1 = Inr ((''hsd_annotations.xlsx'', Spreadsheet sheet) # masks1)
    \<and> create_export_zip cwd st2 fs2 = Inr ((''hsd_annotations.xlsx'', Spreadsheet sheet) # masks2)
    \<and> (resolve fs1 (abs_comps cwd (MASKS_DIR cwd)) = resolve fs2 (abs_comps cwd (MASKS_DIR cwd))
         \<longrightarrow> masks1 = masks2
           \<and> create_export_zip cwd st1 fs1 = create_export_zip cwd st2 fs2)"
proof -
  have "resolve fs1 (abs_comps cwd (MASKS_DIR cwd)) = resolve fs2 (abs_comps cwd (MASKS_DIR cwd))
      \<Longrightarrow> mask_files cwd fs1 = mask_files cwd fs2"
    by (simp add: mask_files_def)
  then show ?thesis
    using create_export_zip_result [OF assms(1,2), of st1]
      create_export_zip_result [OF assms(1,3), of st2] assms(4)
    by auto
qed

lemma app_masks_comps: "abs_comps ''/app'' (MASKS_DIR ''/app'') = [''app'', ''_masks'']"
  by (simp add: app_dirs abs_comps_def startswith_def)

lemma app_abs: "startswith ''/app'' ''/''"
  by (simp add: startswith_def)

lemma example_masks_wf: "masks_wf ''/app'' masks_fs" "masks_wf ''/app'' masks_only_fs"
  by (simp_all add: masks_wf_def app_masks_comps masks_fs_def masks_only_fs_def valid_name_def)





theorem export_twice_same_content_witness:
  "create_export_zip ''/app'' annotated_state masks_fs
     = create_export_zip ''/app'' (annotated_state\<lparr>current_img_idx := 0\<rparr>) masks_only_fs"
proof -
  have a: "annotations annotated_state = annotations (annotated_state\<lparr>current_img_idx := 0\<rparr>)"
    by simp
  have r: "resolve masks_fs (abs_comps ''/app'' (MASKS_DIR ''/app''))
      = resolve masks_only_fs (abs_comps ''/app'' (MASKS_DIR ''/app''))"
    by (simp add: app_masks_comps masks_fs_def masks_only_fs_def)
  from export_twice_same_content [OF app_abs example_masks_wf a] r
  show ?thesis by blast
qed

end
